theory Spec2Isabelle
  imports Complex_Main "HOL-Library.Multiset" "HOL-Library.Log_Nat" "HOL-Library.Sublist"
begin

section \<open>Data model (src/wia/core/models.py)\<close>

text \<open>
  A Python \<open>str\<close> is a sequence of Unicode code points; \<open>len\<close> and slicing count code
  points.  Strings are therefore lists of code points (natural numbers), not byte strings.
\<close>

type_synonym pystr = "nat list"

definition str :: "string \<Rightarrow> pystr" where
  "str s = map of_char s"

record ChatMessage =
  msg_id :: pystr
  timestamp :: int
  sender_id :: pystr
  sender_name :: pystr
  msg_type :: pystr
  content :: pystr
  xml_content :: "pystr option"
  source_file :: pystr
  type_tag :: "pystr option"

text \<open>The dictionary returned by \<open>_extract_link_info_from_xml\<close>.\<close>

record LinkInfo =
  link_title :: "pystr option"
  link_description :: "pystr option"
  link_url :: "pystr option"

text \<open>One entry of \<open>Topic.messages\<close> (the dictionary built in \<open>_create_topic_from_group\<close>).\<close>

record Snapshot =
  snap_msg_id :: pystr
  snap_sender_name :: pystr
  snap_content :: pystr
  snap_timestamp :: int
  snap_msg_type :: pystr
  snap_link :: "LinkInfo option"

record Topic =
  topic_id :: pystr
  message_ids :: "pystr list"
  title :: pystr
  participants :: "pystr list"
  initiator :: "pystr option"
  start_time :: "int option"
  end_time :: "int option"
  conclusion :: "pystr option"
  message_count :: int
  messages :: "Snapshot list"

datatype py_error = IndexError | UnicodeEncodeError

text \<open>
  A computation that may raise or may not return: \<open>None\<close> is a loop that never ends,
  \<open>Some (Inl e)\<close> a raised exception, \<open>Some (Inr v)\<close> a normal return.
\<close>

type_synonym 'a result = "(py_error + 'a) option"

definition bind_res :: "'a result \<Rightarrow> ('a \<Rightarrow> 'b result) \<Rightarrow> 'b result" where
  "bind_res r f = (case r of None \<Rightarrow> None | Some (Inl e) \<Rightarrow> Some (Inl e) | Some (Inr v) \<Rightarrow> f v)"

section \<open>Configuration and external collaborators\<close>

text \<open>The constructor arguments of \<open>TopicBuilder\<close>.\<close>

record Config =
  time_window :: int
  min_messages :: int
  semantic_threshold :: real
  enable_reply_chain :: bool
  enable_semantic :: bool
  enable_adaptive_window :: bool

definition default_config :: Config where
  "default_config = \<lparr> time_window = 300, min_messages = 2, semantic_threshold = 3 / 10,
     enable_reply_chain = True, enable_semantic = True, enable_adaptive_window = True \<rparr>"

text \<open>
  Library calls of the source that are not code of this repository are parameters:
  \<^item> \<open>et_svrid xml\<close>: the ElementTree path of \<open>_extract_quoted_msg_id\<close>
    (\<open>ET.fromstring\<close>, \<open>find(".//refermsg")\<close>, \<open>find("svrid")\<close>, \<open>.text\<close>);
    \<open>None\<close> when the parser raises, \<open>Some None\<close> when no non-empty text is found;
  \<^item> \<open>re_svrid xml\<close>: group 1 of \<open>re.search\<close> with the svrid pattern;
  \<^item> \<open>tfidf_cosine texts\<close>: \<open>cosine_similarity (TfidfVectorizer(...).fit_transform texts)\<close>,
    \<open>None\<close> when it raises;
  \<^item> \<open>md5_hex s\<close>: \<open>hashlib.md5(b).hexdigest()\<close> for the UTF-8 encoding \<open>b\<close> of a
    string \<open>s\<close> that can be encoded;
  \<^item> \<open>link_info xml\<close>: the body of \<open>_extract_link_info_from_xml\<close> on a non-empty payload;
  \<^item> \<open>set_listing xs\<close>: \<open>list(set(xs))\<close>, whose order depends on the interpreter's
    string hashing and so may differ from one process to the next.
\<close>

record Env =
  et_svrid :: "pystr \<Rightarrow> pystr option option"
  re_svrid :: "pystr \<Rightarrow> pystr option"
  tfidf_cosine :: "pystr list \<Rightarrow> real list list option"
  md5_hex :: "pystr \<Rightarrow> pystr"
  link_info :: "pystr \<Rightarrow> LinkInfo option"
  set_listing :: "pystr list \<Rightarrow> pystr list"

section \<open>Python strings\<close>

text \<open>The code points for which \<open>str.isspace\<close> holds.\<close>

definition is_space :: "nat \<Rightarrow> bool" where
  "is_space c = (c \<in> set [9, 10, 11, 12, 13, 28, 29, 30, 31, 32, 133, 160, 5760, 8192, 8193,
     8194, 8195, 8196, 8197, 8198, 8199, 8200, 8201, 8202, 8232, 8233, 8239, 8287, 12288])"

definition strip :: "pystr \<Rightarrow> pystr" where
  "strip s = rev (dropWhile is_space (rev (dropWhile is_space s)))"

fun join :: "pystr \<Rightarrow> pystr list \<Rightarrow> pystr" where
  "join sep [] = []"
| "join sep [x] = x"
| "join sep (x # y # ys) = x @ sep @ join sep (y # ys)"

text \<open>\<open>s.split()\<close>: the maximal runs of non-whitespace; \<open>w\<close> is the run being read.\<close>

fun split_ws :: "pystr \<Rightarrow> pystr \<Rightarrow> pystr list" where
  "split_ws w [] = (if w = [] then [] else [w])"
| "split_ws w (c # cs) =
     (if is_space c then (if w = [] then split_ws [] cs else w # split_ws [] cs)
      else split_ws (w @ [c]) cs)"

definition split :: "pystr \<Rightarrow> pystr list" where
  "split s = split_ws [] s"

definition replace_char :: "nat \<Rightarrow> nat \<Rightarrow> pystr \<Rightarrow> pystr" where
  "replace_char a b s = map (\<lambda>c. if c = a then b else c) s"

fun startswith :: "pystr \<Rightarrow> pystr \<Rightarrow> bool" where
  "startswith s [] = True"
| "startswith [] (p # ps) = False"
| "startswith (c # cs) (p # ps) = (c = p \<and> startswith cs ps)"

text \<open>\<open>p in s\<close> for strings.\<close>

fun contains :: "pystr \<Rightarrow> pystr \<Rightarrow> bool" where
  "contains [] p = (p = [])"
| "contains (c # cs) p = (startswith (c # cs) p \<or> contains cs p)"

text \<open>\<open>str(n)\<close> for an integer.\<close>

function dec :: "nat \<Rightarrow> pystr" where
  "dec n = (if n < 10 then [48 + n] else dec (n div 10) @ [48 + n mod 10])"
  by pat_completeness auto
termination
  by (relation "measure (\<lambda>n. n)") auto

declare dec.simps [simp del]

definition str_of_int :: "int \<Rightarrow> pystr" where
  "str_of_int i = (if i < 0 then 45 # dec (nat (- i)) else dec (nat i))"

text \<open>The media placeholders and fixed strings of the source, as code points.\<close>

definition ph_image :: pystr where "ph_image = [91, 22270, 29255, 93]"
definition ph_voice :: pystr where "ph_voice = [91, 35821, 38899, 93]"
definition ph_video :: pystr where "ph_video = [91, 35270, 39057, 93]"
definition ph_emoji :: pystr where "ph_emoji = [91, 34920, 24773, 93]"
definition unknown_topic :: pystr where "unknown_topic = [26410, 30693, 35805, 39064]"

section \<open>Python floats\<close>

text \<open>
  A Python \<open>float\<close> is an IEEE-754 binary64 number.  \<open>fl x\<close> rounds a real to the nearest
  number with a 53-bit significand, ties to even, with an unbounded exponent: it is the
  result of a correctly rounded operation whenever that result is in the normal range,
  which holds for every operation of \<open>_get_adaptive_window\<close> on 64-bit timestamps.
\<close>

definition ilog2 :: "real \<Rightarrow> int" where
  "ilog2 x = (if 1 \<le> x then bitlen \<lfloor>x\<rfloor> - 1 else - bitlen (\<lceil>1 / x\<rceil> - 1))"

definition pow2 :: "int \<Rightarrow> real" where
  "pow2 e = (if 0 \<le> e then 2 ^ nat e else 1 / 2 ^ nat (- e))"

definition round_even :: "real \<Rightarrow> int" where
  "round_even x = (let f = \<lfloor>x\<rfloor>; r = x - of_int f
     in if r < 1 / 2 then f else if 1 / 2 < r then f + 1 else if even f then f else f + 1)"

definition fl :: "real \<Rightarrow> real" where
  "fl x = (if x = 0 then 0
     else let e = ilog2 \<bar>x\<bar> - 52
          in sgn x * (of_int (round_even (\<bar>x\<bar> / pow2 e)) * pow2 e))"

text \<open>\<open>int(x)\<close> on a float truncates toward zero.\<close>

definition py_int :: "real \<Rightarrow> int" where
  "py_int x = (if 0 \<le> x then \<lfloor>x\<rfloor> else \<lceil>x\<rceil>)"

section \<open>Stage 1: time-window grouping\<close>

text \<open>
  \<open>_get_adaptive_window\<close>.  \<open>len(g) / time_span\<close> is the correctly rounded quotient of two
  integers, the product with \<open>60\<close> is rounded again, \<open>time_window * 0.5\<close> converts the
  integer to a float first, and \<open>int(time_window * 2)\<close> is an integer product.  The list has at
  least two elements where \<open>last\<close> and \<open>hd\<close> are read.
\<close>

definition density :: "ChatMessage list \<Rightarrow> real" where
  "density current_group =
     (let time_span = timestamp (last current_group) - timestamp (hd current_group)
      in if time_span = 0 then of_nat (length current_group)
         else fl (fl (of_nat (length current_group) / of_int time_span) * 60))"

definition get_adaptive_window :: "Config \<Rightarrow> ChatMessage list \<Rightarrow> int" where
  "get_adaptive_window cfg current_group =
     (if \<not> enable_adaptive_window cfg \<or> length current_group < 2 then time_window cfg
      else let d = density current_group
           in if d > 2 then py_int (fl (fl (of_int (time_window cfg)) * (1 / 2)))
              else if d > 1 then time_window cfg
              else if d > 1 / 2 then py_int (fl (fl (of_int (time_window cfg)) * (3 / 2)))
              else time_window cfg * 2)"

text \<open>
  The loop of \<open>_group_by_time_window\<close>: \<open>prev\<close> is \<open>messages[i - 1]\<close>, \<open>cur\<close> the
  current group, \<open>groups\<close> the groups closed so far.
\<close>

fun window_loop ::
  "Config \<Rightarrow> ChatMessage \<Rightarrow> ChatMessage list \<Rightarrow> ChatMessage list list \<Rightarrow> ChatMessage list
     \<Rightarrow> ChatMessage list list" where
  "window_loop cfg prev cur groups [] = (if cur \<noteq> [] then groups @ [cur] else groups)"
| "window_loop cfg prev cur groups (m # ms) =
     (let window = get_adaptive_window cfg cur;
          time_diff = timestamp m - timestamp prev
      in if time_diff \<le> window then window_loop cfg m (cur @ [m]) groups ms
         else window_loop cfg m [m] (groups @ [cur]) ms)"

definition group_by_time_window :: "Config \<Rightarrow> ChatMessage list \<Rightarrow> ChatMessage list list" where
  "group_by_time_window cfg msgs =
     (case msgs of [] \<Rightarrow> [] | m # ms \<Rightarrow> window_loop cfg m [m] [] ms)"

section \<open>Stage 2: reply-chain linking\<close>

text \<open>
  \<open>_extract_quoted_msg_id\<close>.  Both parsers are library calls; an exception of the
  ElementTree parser is caught by the \<open>except\<close> clause and gives \<open>None\<close>.
\<close>

definition extract_quoted_msg_id :: "Env \<Rightarrow> ChatMessage \<Rightarrow> pystr option" where
  "extract_quoted_msg_id env msg =
     (case xml_content msg of
        None \<Rightarrow> None
      | Some xml \<Rightarrow>
          if xml = [] then None
          else (case (if contains xml (str ''<refermsg>'') then et_svrid env xml else Some None) of
                  None \<Rightarrow> None
                | Some (Some text) \<Rightarrow> Some (str ''svrid_'' @ text)
                | Some None \<Rightarrow>
                    (case re_svrid env xml of
                       Some digits \<Rightarrow> Some (str ''svrid_'' @ digits)
                     | None \<Rightarrow> None)))"

text \<open>
  \<open>_extract_reply_relations\<close>: \<open>msg_map\<close> holds the ids of the grp being scanned, so a
  relation is recorded only when the quoted id is an id of the same grp.
\<close>

definition group_relations :: "Env \<Rightarrow> ChatMessage list \<Rightarrow> (pystr \<times> pystr) list" where
  "group_relations env grp =
     List.map_filter
       (\<lambda>msg. case extract_quoted_msg_id env msg of
                None \<Rightarrow> None
              | Some quoted \<Rightarrow>
                  if quoted \<noteq> [] \<and> quoted \<in> set (map msg_id grp)
                  then Some (msg_id msg, quoted) else None)
       grp"

definition extract_reply_relations :: "Env \<Rightarrow> ChatMessage list list \<Rightarrow> (pystr \<times> pystr) list" where
  "extract_reply_relations env groups = concat (map (group_relations env) groups)"

text \<open>The dictionary \<open>msg_to_group\<close>: a later grp overwrites the entry of an earlier one.\<close>

definition build_msg_to_group :: "ChatMessage list list \<Rightarrow> (pystr \<rightharpoonup> nat)" where
  "build_msg_to_group groups =
     fold (\<lambda>(idx, grp) m. fold (\<lambda>msg m'. m'(msg_id msg \<mapsto> idx)) grp m)
       (enumerate 0 groups) Map.empty"

text \<open>
  The union-find of \<open>_merge_by_reply_relation\<close>.  \<open>find\<close> (here \<open>find_uf\<close>) is a \<open>while\<close> loop that
  rewrites \<open>parent\<close> (path halving), so it returns the new array with the root; an index
  outside the array raises \<open>IndexError\<close>.
\<close>

partial_function (option) find_uf :: "nat list \<Rightarrow> nat \<Rightarrow> (py_error + nat list \<times> nat) option" where
  "find_uf parent x =
     (if \<not> x < length parent then Some (Inl IndexError)
      else if parent ! x \<noteq> x then
        (if \<not> parent ! x < length parent then Some (Inl IndexError)
         else find_uf (parent[x := parent ! (parent ! x)]) (parent[x := parent ! (parent ! x)] ! x))
      else Some (Inr (parent, x)))"

declare find_uf.simps [code]

definition union_uf :: "nat list \<Rightarrow> nat \<Rightarrow> nat \<Rightarrow> nat list result" where
  "union_uf parent x y =
     bind_res (find_uf parent x) (\<lambda>(parent1, px).
     bind_res (find_uf parent1 y) (\<lambda>(parent2, py).
       Some (Inr (if px \<noteq> py then parent2[px := py] else parent2))))"

text \<open>The loop over \<open>reply_relations\<close>.\<close>

fun union_relations ::
  "(pystr \<rightharpoonup> nat) \<Rightarrow> (pystr \<times> pystr) list \<Rightarrow> nat list \<Rightarrow> nat list result" where
  "union_relations msg_to_group [] parent = Some (Inr parent)"
| "union_relations msg_to_group ((reply_msg_id, quoted_msg_id) # rels) parent =
     (case (msg_to_group reply_msg_id, msg_to_group quoted_msg_id) of
        (Some reply_group_idx, Some quoted_group_idx) \<Rightarrow>
          bind_res (union_uf parent reply_group_idx quoted_group_idx)
            (union_relations msg_to_group rels)
      | _ \<Rightarrow> union_relations msg_to_group rels parent)"

text \<open>
  \<open>root_to_messages\<close> is a dictionary read back in insertion order: an association list
  in which a new key goes to the end.
\<close>

fun dict_extend :: "nat \<Rightarrow> 'a list \<Rightarrow> (nat \<times> 'a list) list \<Rightarrow> (nat \<times> 'a list) list" where
  "dict_extend rt grp [] = [(rt, grp)]"
| "dict_extend rt grp ((k, v) # d) =
     (if k = rt then (k, v @ grp) # d else (k, v) # dict_extend rt grp d)"

fun collect_roots ::
  "nat list \<Rightarrow> (nat \<times> ChatMessage list) list \<Rightarrow> (nat \<times> ChatMessage list) list
     \<Rightarrow> (nat \<times> ChatMessage list) list result" where
  "collect_roots parent [] root_to_messages = Some (Inr root_to_messages)"
| "collect_roots parent ((idx, grp) # rest) root_to_messages =
     bind_res (find_uf parent idx) (\<lambda>(parent', rt).
       collect_roots parent' rest (dict_extend rt grp root_to_messages))"

definition merge_by_reply_relation :: "Env \<Rightarrow> ChatMessage list list \<Rightarrow> ChatMessage list list result" where
  "merge_by_reply_relation env groups =
     (let msg_to_group = build_msg_to_group groups;
          reply_relations = extract_reply_relations env groups
      in if reply_relations = [] then Some (Inr groups)
         else bind_res (union_relations msg_to_group reply_relations [0..<length groups])
                (\<lambda>parent.
           bind_res (collect_roots parent (enumerate 0 groups) [])
                (\<lambda>root_to_messages.
             Some (Inr (map (\<lambda>(rt, msgs). sort_key timestamp msgs) root_to_messages)))))"

section \<open>Stage 3: semantic merging\<close>

text \<open>\<open>_get_group_text\<close>: the contents of the first three messages, placeholders left out.\<close>

definition get_group_text :: "ChatMessage list \<Rightarrow> pystr" where
  "get_group_text grp =
     (if grp = [] then []
      else join (str '' '')
             (map content
                (filter (\<lambda>msg. content msg \<noteq> [] \<and> content msg \<notin> set [ph_image, ph_voice, ph_video])
                   (take 3 grp))))"

definition zeros :: "nat \<Rightarrow> real list list" where
  "zeros n = replicate n (replicate n 0)"

text \<open>\<open>full[r][c] = v\<close> on a matrix held as a list of rows.\<close>

definition set_entry :: "real list list \<Rightarrow> nat \<Rightarrow> nat \<Rightarrow> real \<Rightarrow> real list list" where
  "set_entry full r c v = full[r := (full ! r)[c := v]]"

text \<open>
  \<open>similarities[i][j]\<close> is read for all \<open>i, j < k\<close>; on a smaller matrix the read raises
  and the \<open>except\<close> clause takes over.
\<close>

definition readable :: "nat \<Rightarrow> real list list \<Rightarrow> bool" where
  "readable k sims = (k \<le> length sims \<and> list_all (\<lambda>row. k \<le> length row) (take k sims))"

text \<open>
  \<open>_compute_semantic_similarities\<close>.  The vectorizer and the cosine similarity are the
  library call \<open>tfidf_cosine\<close>; any exception inside the \<open>try\<close> block gives the zero
  matrix.
\<close>

definition compute_semantic_similarities :: "Env \<Rightarrow> pystr list \<Rightarrow> real list list" where
  "compute_semantic_similarities env texts =
     (let valid_indices = filter (\<lambda>i. strip (texts ! i) \<noteq> []) [0..<length texts]
      in if length valid_indices < 2 then zeros (length texts)
         else (case tfidf_cosine env (map (\<lambda>i. texts ! i) valid_indices) of
                 None \<Rightarrow> zeros (length texts)
               | Some similarities \<Rightarrow>
                   if \<not> readable (length valid_indices) similarities then zeros (length texts)
                   else fold (\<lambda>(i, idx_i) full.
                               fold (\<lambda>(j, idx_j) full'.
                                       set_entry full' idx_i idx_j (similarities ! i ! j))
                                 (enumerate 0 valid_indices) full)
                          (enumerate 0 valid_indices) (zeros (length texts))))"

text \<open>
  The inner loop of \<open>_merge_by_semantic_similarity\<close> for a fixed \<open>i\<close>, over
  \<open>j\<close> in \<open>range(i + 1, len(groups))\<close>; the state is \<open>(similar_indices, merged)\<close>.
\<close>

definition similar_step ::
  "real list list \<Rightarrow> real \<Rightarrow> nat \<Rightarrow> nat \<Rightarrow> nat list \<times> bool list \<Rightarrow> nat list \<times> bool list" where
  "similar_step similarities threshold i j st =
     (case st of (similar_indices, merged) \<Rightarrow>
        if \<not> merged ! j \<and> similarities ! i ! j \<ge> threshold
        then (similar_indices @ [j], merged[j := True])
        else (similar_indices, merged))"

text \<open>One round of the outer loop; the state is \<open>(merged, final_groups)\<close>.\<close>

definition merge_step ::
  "real list list \<Rightarrow> real \<Rightarrow> ChatMessage list list \<Rightarrow> nat
     \<Rightarrow> bool list \<times> ChatMessage list list \<Rightarrow> bool list \<times> ChatMessage list list" where
  "merge_step similarities threshold groups i st =
     (case st of (merged, final_groups) \<Rightarrow>
        if merged ! i then (merged, final_groups)
        else (case fold (similar_step similarities threshold i) [Suc i..<length groups] ([i], merged)
              of (similar_indices, merged1) \<Rightarrow>
                let merged_group = concat (map (\<lambda>idx. groups ! idx) similar_indices);
                    merged2 = fold (\<lambda>idx m. m[idx := True]) similar_indices merged1
                in (merged2, final_groups @ [sort_key timestamp merged_group])))"

definition merge_by_semantic_similarity ::
  "Env \<Rightarrow> Config \<Rightarrow> ChatMessage list list \<Rightarrow> ChatMessage list list" where
  "merge_by_semantic_similarity env cfg groups =
     (if length groups \<le> 1 then groups
      else let group_texts = map get_group_text groups;
               similarities = compute_semantic_similarities env group_texts
           in snd (fold (merge_step similarities (semantic_threshold cfg) groups)
                     [0..<length groups] (replicate (length groups) False, [])))"

section \<open>Stage 4 and topic creation\<close>

text \<open>The list comprehension of stage 4 in \<open>run\<close>.\<close>

definition quality_filter :: "Config \<Rightarrow> ChatMessage list list \<Rightarrow> ChatMessage list list" where
  "quality_filter cfg groups = filter (\<lambda>g. int (length g) \<ge> min_messages cfg) groups"

text \<open>
  \<open>s.encode()\<close> is the strict UTF-8 encoding: it raises \<open>UnicodeEncodeError\<close> when the
  string holds a surrogate code point (U+D800 to U+DFFF), which a Python string can.
\<close>

definition is_surrogate :: "nat \<Rightarrow> bool" where
  "is_surrogate c = (55296 \<le> c \<and> c \<le> 57343)"

definition encodable :: "pystr \<Rightarrow> bool" where
  "encodable s = (\<not> list_ex is_surrogate s)"

text \<open>\<open>_generate_topic_id\<close>: the digest of the encoded string, cut to 12 characters.\<close>

definition generate_topic_id :: "Env \<Rightarrow> ChatMessage \<Rightarrow> py_error + pystr" where
  "generate_topic_id env message =
     (let content = str_of_int (timestamp message) @ str ''_'' @ sender_id message
                      @ str ''_'' @ msg_id message
      in if encodable content then Inr (take 12 (md5_hex env content))
         else Inl UnicodeEncodeError)"

definition generate_title :: "ChatMessage list \<Rightarrow> pystr" where
  "generate_title msgs =
     (if msgs = [] then unknown_topic
      else (case List.find (\<lambda>msg. strip (content msg) \<noteq> [] \<and>
                     strip (content msg) \<notin> set [ph_image, ph_voice, ph_video, ph_emoji]) msgs of
              None \<Rightarrow> unknown_topic
            | Some msg \<Rightarrow>
                let t = join (str '' '') (split (replace_char 10 32 (strip (content msg))))
                in if length t > 50 then take 50 t @ str ''...'' else t))"

definition extract_link_info_from_xml :: "Env \<Rightarrow> pystr option \<Rightarrow> LinkInfo option" where
  "extract_link_info_from_xml env xml =
     (case xml of None \<Rightarrow> None | Some x \<Rightarrow> if x = [] then None else link_info env x)"

definition substantive :: "ChatMessage \<Rightarrow> bool" where
  "substantive m = (content m \<noteq> [] \<and> strip (content m) \<notin> set [ph_image, ph_voice, ph_video])"

definition generate_conclusion :: "ChatMessage list \<Rightarrow> pystr option" where
  "generate_conclusion msgs =
     (if length msgs \<le> 1 then None
      else let content_messages = filter substantive (take 5 msgs)
           in if content_messages = [] then None
              else let contents = map (\<lambda>m. strip (take 100 (content m))) content_messages;
                       conclusion = join (str '' | '') contents
                   in Some (if length conclusion > 300 then take 300 conclusion @ str ''...''
                            else conclusion))"

definition snapshot :: "Env \<Rightarrow> ChatMessage \<Rightarrow> Snapshot" where
  "snapshot env m =
     (let xml_to_parse =
            (case xml_content m of
               Some x \<Rightarrow> if x \<noteq> [] then Some x
                         else if startswith (content m) (str ''<'') then Some (content m) else None
             | None \<Rightarrow> if startswith (content m) (str ''<'') then Some (content m) else None)
      in \<lparr> snap_msg_id = msg_id m, snap_sender_name = sender_name m, snap_content = content m,
           snap_timestamp = timestamp m, snap_msg_type = msg_type m,
           snap_link = extract_link_info_from_xml env xml_to_parse \<rparr>)"

text \<open>
  \<open>_create_topic_from_group\<close>; \<open>messages[0]\<close> raises on an empty group, and the topic
  id is computed before anything else.
\<close>

definition create_topic_from_group :: "Env \<Rightarrow> ChatMessage list \<Rightarrow> py_error + Topic" where
  "create_topic_from_group env msgs =
     (case msgs of
        [] \<Rightarrow> Inl IndexError
      | first_msg # _ \<Rightarrow>
          (case generate_topic_id env first_msg of
             Inl e \<Rightarrow> Inl e
           | Inr tid \<Rightarrow>
               Inr \<lparr> topic_id = tid,
                     message_ids = map msg_id msgs,
                     title = generate_title msgs,
                     participants = set_listing env (map sender_name msgs),
                     initiator = Some (sender_name first_msg),
                     start_time = Some (timestamp first_msg),
                     end_time = Some (timestamp (last msgs)),
                     conclusion = generate_conclusion msgs,
                     message_count = int (length msgs),
                     messages = map (snapshot env) msgs \<rparr>))"

fun create_topics :: "Env \<Rightarrow> ChatMessage list list \<Rightarrow> py_error + Topic list" where
  "create_topics env [] = Inr []"
| "create_topics env (g # gs) =
     (case create_topic_from_group env g of
        Inl e \<Rightarrow> Inl e
      | Inr t \<Rightarrow> (case create_topics env gs of Inl e \<Rightarrow> Inl e | Inr ts \<Rightarrow> Inr (t # ts)))"

section \<open>The pipeline\<close>

text \<open>Stages 1 to 3 of \<open>run\<close>, on the sorted message list.\<close>

definition cluster :: "Env \<Rightarrow> Config \<Rightarrow> ChatMessage list \<Rightarrow> ChatMessage list list result" where
  "cluster env cfg sorted_messages =
     bind_res (let groups = group_by_time_window cfg sorted_messages
               in if enable_reply_chain cfg then merge_by_reply_relation env groups
                  else Some (Inr groups))
       (\<lambda>groups. Some (Inr (if enable_semantic cfg
                             then merge_by_semantic_similarity env cfg groups else groups)))"

definition run :: "Env \<Rightarrow> Config \<Rightarrow> ChatMessage list \<Rightarrow> Topic list result" where
  "run env cfg msgs =
     (let sorted_messages = sort_key timestamp msgs
      in if sorted_messages = [] then Some (Inr [])
         else bind_res (cluster env cfg sorted_messages)
                (\<lambda>groups. Some (create_topics env (quality_filter cfg groups))))"

section \<open>Reference definitions and example data\<close>

text \<open>
  The ranking invariant of the union-find forest, by which \<open>find_uf\<close> is shown to return;
  the single greedy pass of the semantic merger as the specification words it
  (\<open>greedy_merge\<close>, on group indices), to be compared with the loop of the source; the
  well-formedness of the group lists that reach the later stages; and the messages,
  configurations and library stand-ins of the examples.
\<close>

definition uf_ranked :: "(nat \<Rightarrow> nat) \<Rightarrow> nat list \<Rightarrow> bool" where
  "uf_ranked h parent =
     (\<forall>x < length parent. parent ! x < length parent \<and> (parent ! x \<noteq> x \<longrightarrow> h (parent ! x) < h x))"

definition uf_inv :: "nat list \<Rightarrow> bool" where
  "uf_inv parent = (\<exists>h. uf_ranked h parent)"

function greedy_merge :: "(nat \<Rightarrow> nat \<Rightarrow> bool) \<Rightarrow> nat list \<Rightarrow> nat list list" where
  "greedy_merge sim [] = []"
| "greedy_merge sim (i # rest) =
     (i # filter (sim i) rest) # greedy_merge sim (filter (\<lambda>j. \<not> sim i j) rest)"
  by pat_completeness auto
termination
  by (relation "measure (\<lambda>(sim, xs). length xs)") (auto simp: less_Suc_eq_le)

definition merged_messages :: "ChatMessage list list \<Rightarrow> nat list \<Rightarrow> ChatMessage list" where
  "merged_messages groups idxs = sort_key timestamp (concat (map (\<lambda>idx. groups ! idx) idxs))"

definition similar_to :: "real list list \<Rightarrow> real \<Rightarrow> nat \<Rightarrow> nat \<Rightarrow> bool" where
  "similar_to similarities threshold i j = (similarities ! i ! j \<ge> threshold)"

definition mk_msg :: "string \<Rightarrow> int \<Rightarrow> string \<Rightarrow> pystr \<Rightarrow> pystr option \<Rightarrow> ChatMessage" where
  "mk_msg i t who text xml =
     \<lparr> msg_id = str i, timestamp = t, sender_id = str who, sender_name = str who,
       msg_type = str ''text'', content = text, xml_content = xml,
       source_file = str ''chat.json'', type_tag = None \<rparr>"

definition quote_1001 :: pystr where
  "quote_1001 = str ''<refermsg><svrid>1001</svrid></refermsg>''"

definition identity_matrix :: "nat \<Rightarrow> real list list" where
  "identity_matrix n = map (\<lambda>i. map (\<lambda>j. if i = j then 1 else 0) [0..<n]) [0..<n]"

definition example_env :: Env where
  "example_env =
     \<lparr> et_svrid = (\<lambda>xml. if xml = quote_1001 then Some (Some (str ''1001'')) else Some None),
       re_svrid = (\<lambda>xml. None),
       tfidf_cosine = (\<lambda>texts. Some (identity_matrix (length texts))),
       md5_hex = (\<lambda>s. s),
       link_info = (\<lambda>xml. None),
       set_listing = remdups \<rparr>"

definition chain_env :: Env where
  "chain_env = example_env \<lparr> tfidf_cosine :=
     (\<lambda>texts. Some [[1, 3 / 5, 0], [3 / 5, 1, 4 / 5], [0, 4 / 5, 1]]) \<rparr>"

definition msgA :: ChatMessage where
  "msgA = mk_msg ''svrid_1001'' 0 ''alice'' (str ''hello'') None"

definition msgD :: ChatMessage where
  "msgD = mk_msg ''svrid_1002'' 1000 ''bob'' (str ''reply'') (Some quote_1001)"

definition msgP :: ChatMessage where
  "msgP = mk_msg ''p'' 0 ''alice'' (str ''apple'') None"
definition msgQ :: ChatMessage where
  "msgQ = mk_msg ''q'' 1000 ''bob'' (str ''apple banana'') None"
definition msgR :: ChatMessage where
  "msgR = mk_msg ''r'' 2000 ''carol'' (str ''banana'') None"

definition img1 :: ChatMessage where
  "img1 = mk_msg ''i1'' 0 ''alice'' ph_image None"
definition img2 :: ChatMessage where
  "img2 = mk_msg ''i2'' 1200 ''bob'' ph_image None"

definition six_messages :: "ChatMessage list" where
  "six_messages = [mk_msg ''0'' 0 ''alice'' ph_image None, mk_msg ''1'' 1 ''alice'' (str ''a'') None,
     mk_msg ''2'' 2 ''bob'' (str ''b'') None, mk_msg ''3'' 3 ''alice'' (str ''c'') None,
     mk_msg ''4'' 4 ''bob'' (str ''d'') None, mk_msg ''5'' 5 ''alice'' (str ''e'') None]"

definition claimed_conclusion :: "ChatMessage list \<Rightarrow> pystr option" where
  "claimed_conclusion msgs =
     (if length msgs \<le> 1 then None
      else let content_messages = take 5 (filter substantive msgs)
           in if content_messages = [] then None
              else let conclusion = join (str '' | '') (map (\<lambda>m. take 100 (content m)) content_messages)
                   in Some (if length conclusion > 300 then take 300 conclusion @ str ''...''
                            else conclusion))"

definition well_formed :: "ChatMessage list list \<Rightarrow> bool" where
  "well_formed groups = (\<forall>g \<in> set groups. g \<noteq> [] \<and> sorted (map timestamp g))"


definition observed :: "Topic \<Rightarrow> pystr \<times> pystr \<times> pystr list" where
  "observed t = (topic_id t, title t, message_ids t)"

definition observe :: "Topic list result \<Rightarrow> (pystr \<times> pystr \<times> pystr list) list result" where
  "observe r = map_option (map_sum id (map observed)) r"

definition msgU :: ChatMessage where
  "msgU = mk_msg ''u'' 0 ''alice'' (str ''hi'') None"

definition msgV :: ChatMessage where
  "msgV = mk_msg ''v'' 10 ''bob'' (str ''yo'') None"


definition dupA :: ChatMessage where
  "dupA = mk_msg ''svrid_1001'' 0 ''alice'' (str ''question'') None"

definition dupD :: ChatMessage where
  "dupD = mk_msg ''svrid_1002'' 0 ''bob'' (str ''answer'') (Some quote_1001)"

definition dupE :: ChatMessage where
  "dupE = mk_msg ''svrid_1002'' 1000 ''carol'' (str ''later'') None"

definition dupF :: ChatMessage where
  "dupF = mk_msg ''svrid_1002'' 2000 ''dave'' (str ''latest'') None"

definition msgS :: ChatMessage where
  "msgS = msgU \<lparr> sender_id := [55296] \<rparr>"

text \<open>
  The density and the adaptive window in exact arithmetic, as the specification words them:
  \<open>density = message_count / span_minutes\<close> (the span is in seconds in the code, so the span in
  minutes is \<open>time_span / 60\<close>), \<open>density = message_count\<close> for a span of zero, and the four
  cases of the window on every group whatever its length, without conversion to an integer.
\<close>

definition exact_density :: "ChatMessage list \<Rightarrow> real" where
  "exact_density current_group =
     (let time_span = timestamp (last current_group) - timestamp (hd current_group)
      in if time_span = 0 then of_nat (length current_group)
         else of_nat (length current_group) / (of_int time_span / 60))"

definition claimed_window :: "Config \<Rightarrow> ChatMessage list \<Rightarrow> real" where
  "claimed_window cfg current_group =
     (if \<not> enable_adaptive_window cfg then of_int (time_window cfg)
      else let d = exact_density current_group; base = of_int (time_window cfg)
           in if d > 2 then base * (1 / 2)
              else if d > 1 then base
              else if d > 1 / 2 then base * (3 / 2)
              else base * 2)"

definition msgW :: ChatMessage where
  "msgW = mk_msg ''w'' 400 ''bob'' (str ''later'') None"

section \<open>Properties of the stages\<close>

lemma bind_res_Inr [simp]: "bind_res (Some (Inr v)) f = f v"
  by (simp add: bind_res_def)

lemma uf_ranked_halve:
  assumes "uf_ranked h parent" "x < length parent" "parent ! x \<noteq> x"
  shows "uf_ranked h (parent[x := parent ! (parent ! x)])"
    and "h (parent ! (parent ! x)) < h x"
proof -
  let ?p = "parent ! x"
  from assms have px: "?p < length parent" "h ?p < h x"
    by (auto simp: uf_ranked_def)
  from assms(1) px(1) have ppx: "parent ! ?p < length parent" "parent ! ?p \<noteq> ?p \<longrightarrow> h (parent ! ?p) < h ?p"
    by (auto simp: uf_ranked_def)
  show lt: "h (parent ! ?p) < h x"
    using px ppx by (cases "parent ! ?p = ?p") auto
  show "uf_ranked h (parent[x := parent ! ?p])"
    unfolding uf_ranked_def
  proof (intro allI impI)
    fix y assume y: "y < length (parent[x := parent ! ?p])"
    show "parent[x := parent ! ?p] ! y < length (parent[x := parent ! ?p]) \<and>
          (parent[x := parent ! ?p] ! y \<noteq> y \<longrightarrow> h (parent[x := parent ! ?p] ! y) < h y)"
    proof (cases "y = x")
      case True
      then show ?thesis using assms(2) ppx(1) lt by simp
    next
      case False
      then show ?thesis using assms(1) y by (simp add: uf_ranked_def)
    qed
  qed
qed

lemma find_uf_total:
  assumes "uf_ranked h parent" "x < length parent"
  shows "\<exists>parent' r. find_uf parent x = Some (Inr (parent', r)) \<and> uf_ranked h parent'
           \<and> length parent' = length parent \<and> r < length parent \<and> parent' ! r = r
           \<and> (\<forall>y < length parent. parent ! y = y \<longrightarrow> parent' ! y = y)"
  using assms
proof (induction "h x" arbitrary: parent x rule: less_induct)
  case less
  show ?case
  proof (cases "parent ! x = x")
    case True
    then show ?thesis
      using less.prems by (subst find_uf.simps) simp
  next
    case False
    let ?q = "parent[x := parent ! (parent ! x)]"
    have px: "parent ! x < length parent"
      using less.prems by (simp add: uf_ranked_def)
    have ppx: "parent ! (parent ! x) < length parent"
      using less.prems px by (simp add: uf_ranked_def)
    have q: "uf_ranked h ?q" and lt: "h (parent ! (parent ! x)) < h x"
      using uf_ranked_halve [OF less.prems False] by auto
    have qx: "?q ! x = parent ! (parent ! x)"
      using less.prems by simp
    from less.hyps [of "?q ! x" ?q] q lt qx ppx
    obtain parent' r where r: "find_uf ?q (?q ! x) = Some (Inr (parent', r))"
      "uf_ranked h parent'" "length parent' = length parent" "r < length parent"
      "parent' ! r = r" "\<forall>y < length parent. ?q ! y = y \<longrightarrow> parent' ! y = y"
      by auto
    have step: "find_uf parent x = find_uf ?q (?q ! x)"
      using False less.prems px by (subst find_uf.simps) simp
    have "\<forall>y < length parent. parent ! y = y \<longrightarrow> parent' ! y = y"
    proof (intro allI impI)
      fix y assume "y < length parent" "parent ! y = y"
      then have "?q ! y = y" using False by (cases "y = x") auto
      then show "parent' ! y = y" using r(6) \<open>y < length parent\<close> by simp
    qed
    then show ?thesis using r step by auto
  qed
qed

lemma reach_step:
  assumes "y \<noteq> r"
  shows "(\<exists>k. (f ^^ k) y = r) \<longleftrightarrow> (\<exists>k. (f ^^ k) (f y) = r)"
proof
  assume "\<exists>k. (f ^^ k) y = r"
  then obtain k where k: "(f ^^ k) y = r" by blast
  with assms obtain k' where "k = Suc k'" by (cases k) auto
  with k have "(f ^^ k') (f y) = r" by (simp add: funpow_swap1)
  then show "\<exists>k. (f ^^ k) (f y) = r" by blast
next
  assume "\<exists>k. (f ^^ k) (f y) = r"
  then obtain k where "(f ^^ k) (f y) = r" by blast
  then have "(f ^^ Suc k) y = r" by (simp add: funpow_swap1)
  then show "\<exists>k. (f ^^ k) y = r" by blast
qed

lemma funpow_fixed: "f y = y \<Longrightarrow> (f ^^ k) y = y"
  by (induction k) auto

lemma uf_inv_link:
  assumes inv: "uf_ranked h parent"
    and px: "px < length parent" "parent ! px = px"
    and py: "py < length parent" "parent ! py = py"
    and ne: "px \<noteq> py"
  shows "uf_inv (parent[px := py])"
proof -
  let ?f = "\<lambda>v. parent ! v"
  define h' where "h' z = h z + (if \<exists>k. (?f ^^ k) z = px then h py + 1 else 0)" for z
  have py_far: "\<not> (\<exists>k. (?f ^^ k) py = px)"
    using funpow_fixed [of ?f py] py ne by auto
  have px_near: "\<exists>k. (?f ^^ k) px = px"
    by (rule exI [of _ 0]) simp
  have "uf_ranked h' (parent[px := py])"
    unfolding uf_ranked_def
  proof (intro allI impI)
    fix z assume "z < length (parent[px := py])"
    then have z: "z < length parent" by simp
    show "parent[px := py] ! z < length (parent[px := py]) \<and>
          (parent[px := py] ! z \<noteq> z \<longrightarrow> h' (parent[px := py] ! z) < h' z)"
    proof (cases "z = px")
      case True
      have "h' py < h' px" using py_far px_near by (simp add: h'_def)
      then show ?thesis using True px py by simp
    next
      case False
      have same: "(\<exists>k. (?f ^^ k) z = px) \<longleftrightarrow> (\<exists>k. (?f ^^ k) (parent ! z) = px)"
        using reach_step [OF False, of ?f] by simp
      have "parent ! z < length parent" "parent ! z \<noteq> z \<longrightarrow> h (parent ! z) < h z"
        using inv z by (auto simp: uf_ranked_def)
      then show ?thesis using False same by (auto simp: h'_def)
    qed
  qed
  then show ?thesis unfolding uf_inv_def by blast
qed

lemma union_uf_total:
  assumes "uf_inv parent" "x < length parent" "y < length parent"
  shows "\<exists>parent'. union_uf parent x y = Some (Inr parent') \<and> uf_inv parent'
           \<and> length parent' = length parent"
proof -
  from assms(1) obtain h where h: "uf_ranked h parent" unfolding uf_inv_def by blast
  from find_uf_total [OF h assms(2)]
  obtain p1 px where 1: "find_uf parent x = Some (Inr (p1, px))" "uf_ranked h p1"
    "length p1 = length parent" "px < length parent" "p1 ! px = px"
    by blast
  from find_uf_total [of h p1 y] 1 assms(3)
  obtain p2 py where 2: "find_uf p1 y = Some (Inr (p2, py))" "uf_ranked h p2"
    "length p2 = length parent" "py < length parent" "p2 ! py = py"
    "\<forall>z < length p1. p1 ! z = z \<longrightarrow> p2 ! z = z"
    by auto
  have px2: "p2 ! px = px" using 1 2(6) by simp
  have res: "union_uf parent x y = Some (Inr (if px \<noteq> py then p2[px := py] else p2))"
    using 1(1) 2(1) by (simp add: union_uf_def)
  show ?thesis
  proof (cases "px = py")
    case True
    then show ?thesis using res 2 unfolding uf_inv_def by auto
  next
    case False
    have "uf_inv (p2[px := py])"
      using uf_inv_link [OF 2(2) _ px2 _ 2(5) False] 1(4) 2(3,4) by simp
    then show ?thesis using res False 2(3) by simp
  qed
qed

lemma msg_to_group_inner_id:
  "fold (\<lambda>msg m'. m'(msg_id msg \<mapsto> idx)) grp m k = Some i \<Longrightarrow>
     (i = idx \<and> k \<in> set (map msg_id grp)) \<or> m k = Some i"
proof (induction grp arbitrary: m)
  case Nil
  then show ?case by simp
next
  case (Cons a grp)
  from Cons.prems have "fold (\<lambda>msg m'. m'(msg_id msg \<mapsto> idx)) grp (m(msg_id a \<mapsto> idx)) k = Some i"
    by (simp only: fold.simps o_apply)
  from Cons.IH [OF this] show ?case by (auto split: if_splits)
qed

lemma msg_to_group_outer_id:
  assumes "\<forall>p \<in> set ps. \<forall>k \<in> set (map msg_id (snd p)). P (fst p) k"
    and "\<forall>k i. m k = Some i \<longrightarrow> P i k"
    and "fold (\<lambda>(idx, grp) m. fold (\<lambda>msg m'. m'(msg_id msg \<mapsto> idx)) grp m) ps m k = Some i"
  shows "P i k"
  using assms
proof (induction ps arbitrary: m)
  case Nil
  then show ?case by simp
next
  case (Cons p ps)
  obtain idx grp where p: "p = (idx, grp)" by (cases p)
  let ?m = "fold (\<lambda>msg m'. m'(msg_id msg \<mapsto> idx)) grp m"
  have "\<forall>k i. ?m k = Some i \<longrightarrow> P i k"
    using msg_to_group_inner_id [of idx grp m] Cons.prems(1,2) p by fastforce
  moreover have "fold (\<lambda>(idx, grp) m. fold (\<lambda>msg m'. m'(msg_id msg \<mapsto> idx)) grp m) ps ?m k = Some i"
    using Cons.prems(3) unfolding p by (simp only: fold.simps o_apply case_prod_conv)
  ultimately show ?case using Cons.IH [of ?m] Cons.prems(1) by (simp del: fun_upd_apply)
qed

lemma enumerate_member:
  "p \<in> set (enumerate 0 xs) \<Longrightarrow> fst p < length xs \<and> snd p = xs ! fst p \<and> snd p \<in> set xs"
  by (cases p) (simp add: in_set_enumerate_eq)

lemma build_msg_to_group_member:
  assumes "build_msg_to_group groups k = Some i"
  shows "i < length groups \<and> k \<in> set (map msg_id (groups ! i))"
proof -
  have "\<forall>p \<in> set (enumerate 0 groups). \<forall>k \<in> set (map msg_id (snd p)).
          fst p < length groups \<and> k \<in> set (map msg_id (groups ! fst p))"
    using enumerate_member [of _ groups] by simp
  from msg_to_group_outer_id [where P = "\<lambda>i k. i < length groups \<and> k \<in> set (map msg_id (groups ! i))",
      OF this _ assms [unfolded build_msg_to_group_def]]
  show ?thesis by simp
qed

lemma build_msg_to_group_bound:
  "build_msg_to_group groups k = Some i \<Longrightarrow> i < length groups"
  using build_msg_to_group_member by blast

lemma union_relations_total:
  assumes "uf_inv parent" "\<forall>k i. m k = Some i \<longrightarrow> i < length parent"
  shows "\<exists>parent'. union_relations m rels parent = Some (Inr parent') \<and> uf_inv parent'
           \<and> length parent' = length parent"
  using assms
proof (induction rels arbitrary: parent)
  case Nil
  then show ?case by simp
next
  case (Cons rel rels)
  obtain r q where rel: "rel = (r, q)" by (cases rel)
  show ?case
  proof (cases "\<exists>a b. m r = Some a \<and> m q = Some b")
    case True
    then obtain a b where ab: "m r = Some a" "m q = Some b" by blast
    then have "a < length parent" "b < length parent" using Cons.prems(2) by auto
    from union_uf_total [OF Cons.prems(1) this]
    obtain p1 where p1: "union_uf parent a b = Some (Inr p1)" "uf_inv p1" "length p1 = length parent"
      by blast
    from Cons.IH [of p1] p1 Cons.prems(2)
    obtain p2 where "union_relations m rels p1 = Some (Inr p2)" "uf_inv p2" "length p2 = length parent"
      by auto
    then show ?thesis using rel ab p1 by simp
  next
    case False
    then have "union_relations m (rel # rels) parent = union_relations m rels parent"
      using rel by (auto split: option.splits)
    then show ?thesis using Cons.IH [OF Cons.prems] by simp
  qed
qed

lemma mset_dict_extend:
  "mset (concat (map snd (dict_extend rt grp d))) = mset (concat (map snd d)) + mset grp"
  by (induction d) auto

lemma collect_roots_total:
  assumes "uf_inv parent" "\<forall>p \<in> set ps. fst p < length parent"
  shows "\<exists>d'. collect_roots parent ps d = Some (Inr d')
           \<and> mset (concat (map snd d')) = mset (concat (map snd d)) + mset (concat (map snd ps))"
  using assms
proof (induction ps arbitrary: parent d)
  case Nil
  then show ?case by simp
next
  case (Cons p ps)
  obtain idx grp where p: "p = (idx, grp)" by (cases p)
  from Cons.prems(1) obtain h where h: "uf_ranked h parent" unfolding uf_inv_def by blast
  have "idx < length parent" using Cons.prems(2) p by simp
  from find_uf_total [OF h this]
  obtain p1 rt where f: "find_uf parent idx = Some (Inr (p1, rt))" "uf_ranked h p1"
    "length p1 = length parent"
    by blast
  have "uf_inv p1" using f(2) unfolding uf_inv_def by blast
  from Cons.IH [OF this, of "dict_extend rt grp d"] Cons.prems(2) f(3)
  obtain d' where "collect_roots p1 ps (dict_extend rt grp d) = Some (Inr d')"
    "mset (concat (map snd d')) =
       mset (concat (map snd (dict_extend rt grp d))) + mset (concat (map snd ps))"
    by auto
  then show ?case using p f(1) by (simp add: mset_dict_extend)
qed

lemma uf_inv_initial: "uf_inv [0..<n]"
  unfolding uf_inv_def uf_ranked_def by simp

lemma mset_sorted_values:
  "mset (concat (map (\<lambda>(rt, msgs). sort_key timestamp msgs) d)) = mset (concat (map snd d))"
  by (induction d) auto

lemma merge_by_reply_relation_total:
  "\<exists>out. merge_by_reply_relation env groups = Some (Inr out)
         \<and> mset (concat out) = mset (concat groups)"
proof (cases "extract_reply_relations env groups = []")
  case True
  then show ?thesis by (simp add: merge_by_reply_relation_def)
next
  case False
  let ?m = "build_msg_to_group groups"
  have "\<forall>k i. ?m k = Some i \<longrightarrow> i < length [0..<length groups]"
    using build_msg_to_group_bound by simp
  from union_relations_total [OF uf_inv_initial this]
  obtain parent where p: "union_relations ?m (extract_reply_relations env groups) [0..<length groups]
      = Some (Inr parent)" "uf_inv parent" "length parent = length groups"
    by auto
  have "\<forall>p \<in> set (enumerate 0 groups). fst p < length parent"
    using p(3) enumerate_member [of _ groups] by simp
  from collect_roots_total [OF p(2) this, of "[]"]
  obtain d where d: "collect_roots parent (enumerate 0 groups) [] = Some (Inr d)"
    "mset (concat (map snd d)) = mset (concat groups)"
    by auto
  show ?thesis
    using False p(1) d by (simp add: merge_by_reply_relation_def mset_sorted_values)
qed

lemma concat_window_loop:
  "concat (window_loop cfg prev cur groups ms) = concat groups @ cur @ ms"
  by (induction ms arbitrary: prev cur groups) (auto simp: Let_def)

lemma concat_group_by_time_window: "concat (group_by_time_window cfg ms) = ms"
  by (cases ms) (simp_all add: group_by_time_window_def concat_window_loop)

lemma mark_length [simp]: "length (fold (\<lambda>idx m. m[idx := True]) js m) = length m"
  by (induction js arbitrary: m) auto

lemma mark_nth:
  "k < length m \<Longrightarrow> fold (\<lambda>idx m. m[idx := True]) js m ! k = (m ! k \<or> k \<in> set js)"
proof (induction js arbitrary: m)
  case Nil
  then show ?case by simp
next
  case (Cons j js)
  then show ?case by (cases "k = j") auto
qed

lemma similar_loop:
  assumes "distinct js"
  shows "fold (similar_step S thr i) js (acc, merged) =
     (acc @ filter (\<lambda>j. \<not> merged ! j \<and> similar_to S thr i j) js,
      fold (\<lambda>idx m. m[idx := True]) (filter (\<lambda>j. \<not> merged ! j \<and> similar_to S thr i j) js) merged)"
  using assms
proof (induction js arbitrary: acc merged)
  case Nil
  then show ?case by simp
next
  case (Cons j js)
  have same: "filter (\<lambda>k. \<not> merged[j := True] ! k \<and> similar_to S thr i k) js
      = filter (\<lambda>k. \<not> merged ! k \<and> similar_to S thr i k) js"
  proof (rule filter_cong [OF refl])
    fix k assume "k \<in> set js"
    then have "k \<noteq> j" using Cons.prems by auto
    then show "(\<not> merged[j := True] ! k \<and> similar_to S thr i k)
        = (\<not> merged ! k \<and> similar_to S thr i k)"
      by simp
  qed
  show ?case
  proof (cases "\<not> merged ! j \<and> similar_to S thr i j")
    case True
    then have "similar_step S thr i j (acc, merged) = (acc @ [j], merged[j := True])"
      by (simp add: similar_step_def similar_to_def)
    then show ?thesis using Cons True same by simp
  next
    case False
    then have "similar_step S thr i j (acc, merged) = (acc, merged)"
      by (auto simp add: similar_step_def similar_to_def)
    then show ?thesis using Cons False by simp
  qed
qed

lemma merge_loop:
  assumes "length merged = length groups"
  shows "snd (fold (merge_step S thr groups) [i..<length groups] (merged, final)) =
     final @ map (merged_messages groups)
               (greedy_merge (similar_to S thr) (filter (\<lambda>j. \<not> merged ! j) [i..<length groups]))"
  using assms
proof (induction "length groups - i" arbitrary: i merged final)
  case 0
  then show ?case by simp
next
  case (Suc d)
  let ?n = "length groups"
  from Suc.hyps(2) have i: "i < ?n" by simp
  then have upt: "[i..<?n] = i # [Suc i..<?n]" by (simp add: upt_conv_Cons)
  have d: "d = ?n - Suc i" using Suc.hyps(2) by simp
  show ?case
  proof (cases "merged ! i")
    case True
    then have "merge_step S thr groups i (merged, final) = (merged, final)"
      by (simp add: merge_step_def)
    then show ?thesis
      using Suc.hyps(1) [OF d Suc.prems, of final] True upt by simp
  next
    case False
    let ?F = "filter (\<lambda>j. \<not> merged ! j \<and> similar_to S thr i j) [Suc i..<?n]"
    let ?m1 = "fold (\<lambda>idx m. m[idx := True]) ?F merged"
    let ?m2 = "fold (\<lambda>idx m. m[idx := True]) (i # ?F) ?m1"
    have step: "merge_step S thr groups i (merged, final)
        = (?m2, final @ [merged_messages groups (i # ?F)])"
      using False similar_loop [of "[Suc i..<?n]" S thr i "[i]" merged]
      by (simp add: merge_step_def merged_messages_def)
    have len: "length ?m2 = ?n" using Suc.prems by simp
    have rest: "filter (\<lambda>j. \<not> ?m2 ! j) [Suc i..<?n]
        = filter (\<lambda>j. \<not> similar_to S thr i j) (filter (\<lambda>j. \<not> merged ! j) [Suc i..<?n])"
      unfolding filter_filter
    proof (rule filter_cong [OF refl])
      fix j assume jset: "j \<in> set [Suc i..<?n]"
      then have j: "j < ?n" "j \<noteq> i" by auto
      have "j < length ?m1" using j Suc.prems by simp
      then have 2: "?m2 ! j = (?m1 ! j \<or> j \<in> set (i # ?F))"
        by (rule mark_nth)
      have "j < length merged" using j Suc.prems by simp
      then have 1: "?m1 ! j = (merged ! j \<or> j \<in> set ?F)"
        by (rule mark_nth)
      have "j \<in> set ?F \<longleftrightarrow> \<not> merged ! j \<and> similar_to S thr i j"
        using jset by simp
      then show "(\<not> ?m2 ! j) = (\<not> merged ! j \<and> \<not> similar_to S thr i j)"
        unfolding 2 1 using j by auto
    qed
    have F: "?F = filter (similar_to S thr i) (filter (\<lambda>j. \<not> merged ! j) [Suc i..<?n])"
      unfolding filter_filter by (rule filter_cong) auto
    have "filter (\<lambda>j. \<not> merged ! j) [i..<?n] = i # filter (\<lambda>j. \<not> merged ! j) [Suc i..<?n]"
      using False upt by simp
    then have "greedy_merge (similar_to S thr) (filter (\<lambda>j. \<not> merged ! j) [i..<?n])
        = (i # ?F) # greedy_merge (similar_to S thr) (filter (\<lambda>j. \<not> ?m2 ! j) [Suc i..<?n])"
      using F rest by simp
    then show ?thesis
      using Suc.hyps(1) [OF d len, of "final @ [merged_messages groups (i # ?F)]"] step upt
      by simp
  qed
qed

lemma merge_by_semantic_similarity_greedy:
  "merge_by_semantic_similarity env cfg groups =
     (if length groups \<le> 1 then groups
      else map (merged_messages groups)
             (greedy_merge
                (similar_to (compute_semantic_similarities env (map get_group_text groups))
                   (semantic_threshold cfg))
                [0..<length groups]))"
  using merge_loop [of "replicate (length groups) False" groups _ _ 0 "[]"]
  by (simp add: merge_by_semantic_similarity_def Let_def)

lemma mset_concat_greedy_merge: "mset (concat (greedy_merge sim xs)) = mset xs"
proof (induction sim xs rule: greedy_merge.induct)
  case (1 sim)
  then show ?case by simp
next
  case (2 sim i rest)
  have "mset (filter (sim i) rest) + mset (filter (\<lambda>j. \<not> sim i j) rest) = mset rest"
    by (induction rest) auto
  then show ?case using 2 by (simp add: add.assoc)
qed

lemma mset_concat_map_cong:
  "mset ys = mset zs \<Longrightarrow> mset (concat (map f ys)) = mset (concat (map f zs))"
proof -
  have "mset (concat (map f xs)) = sum_mset (image_mset (mset \<circ> f) (mset xs))" for xs
    by (induction xs) auto
  then show "mset ys = mset zs \<Longrightarrow> mset (concat (map f ys)) = mset (concat (map f zs))"
    by simp
qed

lemma mset_concat_merged:
  "mset (concat (map (merged_messages groups) idxss))
     = mset (concat (map (\<lambda>idx. groups ! idx) (concat idxss)))"
  by (induction idxss) (auto simp: merged_messages_def)

lemma mset_merge_by_semantic_similarity:
  "mset (concat (merge_by_semantic_similarity env cfg groups)) = mset (concat groups)"
proof (cases "length groups \<le> 1")
  case True
  then show ?thesis by (simp add: merge_by_semantic_similarity_greedy)
next
  case False
  let ?G = "greedy_merge (similar_to (compute_semantic_similarities env (map get_group_text groups))
                   (semantic_threshold cfg)) [0..<length groups]"
  have "mset (concat (map (\<lambda>idx. groups ! idx) (concat ?G)))
      = mset (concat (map (\<lambda>idx. groups ! idx) [0..<length groups]))"
    by (rule mset_concat_map_cong) (rule mset_concat_greedy_merge)
  then show ?thesis
    using False by (simp add: merge_by_semantic_similarity_greedy mset_concat_merged map_nth)
qed

lemmas example_defs = mk_msg_def str_def quote_1001_def identity_matrix_def example_env_def chain_env_def
  msgA_def msgD_def msgP_def msgQ_def msgR_def img1_def img2_def six_messages_def default_config_def
  ph_image_def ph_voice_def ph_video_def ph_emoji_def

lemma cfg_simps:
  "time_window default_config = 300" "min_messages default_config = 2"
  "semantic_threshold default_config = 3 / 10" "enable_reply_chain default_config"
  "enable_semantic default_config" "enable_adaptive_window default_config"
  by (simp_all add: default_config_def)

lemma ts_simps:
  "timestamp msgA = 0" "timestamp msgD = 1000" "timestamp msgP = 0" "timestamp msgQ = 1000"
  "timestamp msgR = 2000" "timestamp img1 = 0" "timestamp img2 = 1200"
  by (simp_all add: example_defs)

lemma bind_res_eq_Inr:
  "bind_res r f = Some (Inr v) \<Longrightarrow> \<exists>u. r = Some (Inr u) \<and> f u = Some (Inr v)"
  by (auto simp: bind_res_def split: option.splits sum.splits)

lemma bind_res_InrE:
  assumes "bind_res r f = Some (Inr v)"
  obtains u where "r = Some (Inr u)" "f u = Some (Inr v)"
  using bind_res_eq_Inr [OF assms] by blast

lemma window_loop_nonempty:
  "cur \<noteq> [] \<Longrightarrow> \<forall>g \<in> set groups. g \<noteq> [] \<Longrightarrow> \<forall>g \<in> set (window_loop cfg prev cur groups ms). g \<noteq> []"
proof (induction ms arbitrary: prev cur groups)
  case Nil
  then show ?case by simp
next
  case (Cons m ms)
  show ?case
  proof (cases "timestamp m - timestamp prev \<le> get_adaptive_window cfg cur")
    case True
    then have "window_loop cfg prev cur groups (m # ms) = window_loop cfg m (cur @ [m]) groups ms"
      by simp
    then show ?thesis using Cons.IH [of "cur @ [m]" groups m] Cons.prems(2) by simp
  next
    case False
    then have "window_loop cfg prev cur groups (m # ms) = window_loop cfg m [m] (groups @ [cur]) ms"
      by simp
    then show ?thesis using Cons.IH [of "[m]" "groups @ [cur]" m] Cons.prems by simp
  qed
qed

lemma sorted_concat_member:
  "sorted (map f (concat gs)) \<Longrightarrow> g \<in> set gs \<Longrightarrow> sorted (map f g)"
  by (induction gs) (auto simp: sorted_append)

lemma well_formed_group_by_time_window:
  assumes "sorted (map timestamp ms)"
  shows "well_formed (group_by_time_window cfg ms)"
proof -
  have "\<forall>g \<in> set (group_by_time_window cfg ms). g \<noteq> []"
  proof (cases ms)
    case Nil
    then show ?thesis by (simp add: group_by_time_window_def)
  next
    case (Cons m rest)
    then show ?thesis
      using window_loop_nonempty [of "[m]" "[]" cfg m rest]
      by (simp add: group_by_time_window_def)
  qed
  moreover have "\<forall>g \<in> set (group_by_time_window cfg ms). sorted (map timestamp g)"
    using sorted_concat_member [of timestamp "group_by_time_window cfg ms"] assms
    by (simp add: concat_group_by_time_window)
  ultimately show ?thesis by (simp add: well_formed_def)
qed

lemma dict_extend_nonempty:
  "grp \<noteq> [] \<Longrightarrow> \<forall>p \<in> set d. snd p \<noteq> [] \<Longrightarrow> \<forall>p \<in> set (dict_extend rt grp d). snd p \<noteq> []"
proof (induction d)
  case Nil
  then show ?case by simp
next
  case (Cons p d)
  obtain k v where p: "p = (k, v)" by (cases p)
  from Cons have "v \<noteq> []" "\<forall>q \<in> set d. snd q \<noteq> []"
    "\<forall>q \<in> set (dict_extend rt grp d). snd q \<noteq> []"
    using p by auto
  then show ?case using p by (cases "k = rt") auto
qed

lemma sort_key_eq_Nil [simp]: "sort_key f xs = [] \<longleftrightarrow> xs = []"
  by (metis length_sort length_0_conv)

lemma collect_roots_nonempty:
  assumes "collect_roots parent ps d = Some (Inr d')"
    and "\<forall>p \<in> set d. snd p \<noteq> []" "\<forall>p \<in> set ps. snd p \<noteq> []"
  shows "\<forall>p \<in> set d'. snd p \<noteq> []"
  using assms
proof (induction ps arbitrary: parent d)
  case Nil
  then show ?case by simp
next
  case (Cons p ps)
  obtain idx grp where p: "p = (idx, grp)" by (cases p)
  from Cons.prems(1) have "bind_res (find_uf parent idx)
      (\<lambda>(parent', rt). collect_roots parent' ps (dict_extend rt grp d)) = Some (Inr d')"
    unfolding p by simp
  then obtain u where "(case u of (parent', rt) \<Rightarrow>
      collect_roots parent' ps (dict_extend rt grp d)) = Some (Inr d')"
    by (rule bind_res_InrE)
  then obtain parent' rt where
    "collect_roots parent' ps (dict_extend rt grp d) = Some (Inr d')"
    by (cases u) simp
  moreover have "\<forall>q \<in> set (dict_extend rt grp d). snd q \<noteq> []"
    using Cons.prems(2,3) p by (intro dict_extend_nonempty) auto
  ultimately show ?case using Cons.IH Cons.prems(3) by auto
qed

lemma well_formed_merge_by_reply_relation:
  assumes "merge_by_reply_relation env groups = Some (Inr out)" "well_formed groups"
  shows "well_formed out"
proof (cases "extract_reply_relations env groups = []")
  case True
  then show ?thesis using assms by (simp add: merge_by_reply_relation_def)
next
  case False
  with assms(1) have "bind_res
      (union_relations (build_msg_to_group groups) (extract_reply_relations env groups)
         [0..<length groups])
      (\<lambda>parent. bind_res (collect_roots parent (enumerate 0 groups) [])
         (\<lambda>root_to_messages.
            Some (Inr (map (\<lambda>(rt, msgs). sort_key timestamp msgs) root_to_messages))))
      = Some (Inr out)"
    by (simp add: merge_by_reply_relation_def Let_def)
  then obtain parent where "bind_res
      (collect_roots parent (enumerate 0 groups) [])
      (\<lambda>root_to_messages.
         Some (Inr (map (\<lambda>(rt, msgs). sort_key timestamp msgs) root_to_messages)))
      = Some (Inr out)"
    by (rule bind_res_InrE)
  then obtain d where
    d: "collect_roots parent (enumerate 0 groups) [] = Some (Inr d)"
    and "Some (Inr (map (\<lambda>(rt, msgs). sort_key timestamp msgs) d) :: py_error + ChatMessage list list)
        = Some (Inr out)"
    by (rule bind_res_InrE)
  then have out: "out = map (\<lambda>(rt, msgs). sort_key timestamp msgs) d"
    by simp
  have "\<forall>p \<in> set (enumerate 0 groups). snd p \<noteq> []"
    using assms(2) enumerate_member [of _ groups] by (simp add: well_formed_def)
  from collect_roots_nonempty [OF d _ this] have "\<forall>p \<in> set d. snd p \<noteq> []" by simp
  then show ?thesis unfolding out well_formed_def by (auto simp: sorted_sort_key)
qed

lemma greedy_merge_members:
  "idxs \<in> set (greedy_merge sim xs) \<Longrightarrow> idxs \<noteq> [] \<and> set idxs \<subseteq> set xs"
  by (induction sim xs rule: greedy_merge.induct) auto

lemma well_formed_merge_by_semantic_similarity:
  assumes "well_formed groups"
  shows "well_formed (merge_by_semantic_similarity env cfg groups)"
proof (cases "length groups \<le> 1")
  case True
  then show ?thesis using assms by (simp add: merge_by_semantic_similarity_greedy)
next
  case False
  have "merged_messages groups idxs \<noteq> [] \<and> sorted (map timestamp (merged_messages groups idxs))"
    if "idxs \<noteq> []" "set idxs \<subseteq> set [0..<length groups]" for idxs
  proof -
    from that obtain i rest where idxs: "idxs = i # rest" "i < length groups"
      by (cases idxs) auto
    then have "groups ! i \<noteq> []" using assms by (simp add: well_formed_def)
    then show ?thesis by (simp add: merged_messages_def idxs sorted_sort_key)
  qed
  note ok = this
  show ?thesis
    unfolding well_formed_def
  proof (intro ballI)
    fix g assume "g \<in> set (merge_by_semantic_similarity env cfg groups)"
    then obtain idxs where idxs: "g = merged_messages groups idxs"
      "idxs \<in> set (greedy_merge
          (similar_to (compute_semantic_similarities env (map get_group_text groups))
             (semantic_threshold cfg)) [0..<length groups])"
      using False unfolding merge_by_semantic_similarity_greedy by auto
    from greedy_merge_members [OF idxs(2)] ok [of idxs]
    show "g \<noteq> [] \<and> sorted (map timestamp g)"
      unfolding idxs(1) by blast
  qed
qed

lemma well_formed_cluster:
  assumes "cluster env cfg ms = Some (Inr groups)" "sorted (map timestamp ms)"
  shows "well_formed groups"
proof -
  from assms(1) have "bind_res
      (if enable_reply_chain cfg then merge_by_reply_relation env (group_by_time_window cfg ms)
       else Some (Inr (group_by_time_window cfg ms)))
      (\<lambda>groups. Some (Inr (if enable_semantic cfg
                             then merge_by_semantic_similarity env cfg groups else groups)))
      = Some (Inr groups)"
    by (simp add: cluster_def Let_def)
  then obtain g2 where
    g2: "(if enable_reply_chain cfg then merge_by_reply_relation env (group_by_time_window cfg ms)
          else Some (Inr (group_by_time_window cfg ms))) = Some (Inr g2)"
    and "Some (Inr (if enable_semantic cfg then merge_by_semantic_similarity env cfg g2 else g2)
           :: py_error + ChatMessage list list) = Some (Inr groups)"
    by (rule bind_res_InrE)
  then have groups: "groups = (if enable_semantic cfg then merge_by_semantic_similarity env cfg g2 else g2)"
    by simp
  have "well_formed g2"
  proof (cases "enable_reply_chain cfg")
    case True
    then show ?thesis
      using g2 well_formed_merge_by_reply_relation
        [OF _ well_formed_group_by_time_window [OF assms(2), of cfg], of env g2]
      by simp
  next
    case False
    then show ?thesis
      using g2 well_formed_group_by_time_window [OF assms(2), of cfg] by simp
  qed
  then show ?thesis
    unfolding groups using well_formed_merge_by_semantic_similarity by simp
qed

lemma well_formed_quality_filter: "well_formed groups \<Longrightarrow> well_formed (quality_filter cfg groups)"
  by (simp add: well_formed_def quality_filter_def)

lemma dec_digits: "\<forall>c \<in> set (dec n). c < 58"
proof (induction n rule: dec.induct)
  case (1 n)
  show ?case
  proof (cases "n < 10")
    case True
    then show ?thesis by (subst dec.simps) simp
  next
    case False
    then have "\<forall>c \<in> set (dec (n div 10)). c < 58" using 1 by simp
    moreover have "48 + n mod 10 < 58" by simp
    ultimately show ?thesis using False by (subst dec.simps) auto
  qed
qed

lemma encodable_append [simp]: "encodable (a @ b) \<longleftrightarrow> encodable a \<and> encodable b"
  by (auto simp: encodable_def)

lemma encodable_str_of_int [simp]: "encodable (str_of_int i)"
  using dec_digits [of "nat i"] dec_digits [of "nat (- i)"]
  by (auto simp: encodable_def str_of_int_def list_ex_iff is_surrogate_def)

lemma encodable_underscore [simp]: "encodable (str ''_'')"
  by (simp add: encodable_def str_def is_surrogate_def)

lemma generate_topic_id_cases:
  "generate_topic_id env m =
     (if encodable (sender_id m) \<and> encodable (msg_id m)
      then Inr (take 12 (md5_hex env (str_of_int (timestamp m) @ str ''_'' @ sender_id m
                                       @ str ''_'' @ msg_id m)))
      else Inl UnicodeEncodeError)"
  by (simp add: generate_topic_id_def Let_def)

lemma create_topic_raises:
  assumes "create_topic_from_group env g = Inl e"
  shows "(g = [] \<and> e = IndexError)
       \<or> (g \<noteq> [] \<and> \<not> (encodable (sender_id (hd g)) \<and> encodable (msg_id (hd g)))
            \<and> e = UnicodeEncodeError)"
  using assms
  by (cases g) (auto simp: create_topic_from_group_def generate_topic_id_cases split: if_splits)

lemma create_topic_returns:
  assumes "g \<noteq> []" "encodable (sender_id (hd g))" "encodable (msg_id (hd g))"
  shows "\<exists>t. create_topic_from_group env g = Inr t"
  using assms by (cases g) (simp_all add: create_topic_from_group_def generate_topic_id_cases)

lemma create_topics_Inr:
  "create_topics env groups = Inr topics \<Longrightarrow>
     list_all2 (\<lambda>g t. create_topic_from_group env g = Inr t) groups topics"
proof (induction groups arbitrary: topics)
  case Nil
  then show ?case by simp
next
  case (Cons g groups)
  from Cons.prems obtain t ts where t: "create_topic_from_group env g = Inr t"
    and ts: "create_topics env groups = Inr ts" and topics: "topics = t # ts"
    by (auto split: sum.splits)
  from Cons.IH [OF ts] t topics show ?case by simp
qed

lemma create_topics_Inl:
  "create_topics env groups = Inl e \<Longrightarrow> \<exists>g \<in> set groups. create_topic_from_group env g = Inl e"
proof (induction groups)
  case Nil
  then show ?case by simp
next
  case (Cons g groups)
  then show ?case by (auto split: sum.splits)
qed

lemma create_topics_total:
  "\<forall>g \<in> set groups. g \<noteq> [] \<and> encodable (sender_id (hd g)) \<and> encodable (msg_id (hd g)) \<Longrightarrow>
     \<exists>topics. create_topics env groups = Inr topics"
proof (induction groups)
  case Nil
  then show ?case by simp
next
  case (Cons g groups)
  then obtain topics where "create_topics env groups = Inr topics" by auto
  moreover from Cons.prems obtain t where "create_topic_from_group env g = Inr t"
    using create_topic_returns [of g env] by auto
  ultimately show ?case by simp
qed

lemma cluster_total:
  "\<exists>final. cluster env cfg ms = Some (Inr final) \<and> mset (concat final) = mset ms"
proof -
  let ?g = "group_by_time_window cfg ms"
  obtain g2 where g2: "(if enable_reply_chain cfg then merge_by_reply_relation env ?g else Some (Inr ?g))
      = Some (Inr g2)" "mset (concat g2) = mset ms"
    using merge_by_reply_relation_total [of env ?g]
    by (cases "enable_reply_chain cfg") (auto simp: concat_group_by_time_window)
  then show ?thesis
    by (simp add: cluster_def Let_def mset_merge_by_semantic_similarity)
qed

lemma run_outcome:
  "\<exists>groups. cluster env cfg (sort_key timestamp msgs) = Some (Inr groups)
      \<and> well_formed groups \<and> mset (concat groups) = mset msgs
      \<and> run env cfg msgs = Some (create_topics env (quality_filter cfg groups))"
proof -
  let ?ms = "sort_key timestamp msgs"
  obtain groups where g: "cluster env cfg ?ms = Some (Inr groups)" "mset (concat groups) = mset ?ms"
    using cluster_total by blast
  have wf: "well_formed groups"
    using well_formed_cluster [OF g(1)] by (simp add: sorted_sort_key)
  have "run env cfg msgs = Some (create_topics env (quality_filter cfg groups))"
  proof (cases "?ms = []")
    case True
    have "groups = []"
    proof (rule ccontr)
      assume "groups \<noteq> []"
      then obtain g0 where "g0 \<in> set groups" by (cases groups) auto
      then have "g0 \<noteq> [] \<and> set g0 \<subseteq> set (concat groups)"
        using wf by (auto simp: well_formed_def)
      then show False using g(2) True by (cases g0) auto
    qed
    then show ?thesis using True by (simp add: run_def quality_filter_def)
  next
    case False
    then show ?thesis using g(1) by (simp add: run_def Let_def)
  qed
  with g wf show ?thesis
    by (intro exI conjI) (simp_all only: mset_sort)
qed



lemma snapshot_fields [simp]:
  "snap_msg_id (snapshot env m) = msg_id m"
  "snap_sender_name (snapshot env m) = sender_name m"
  "snap_timestamp (snapshot env m) = timestamp m"
  by (simp_all add: snapshot_def Let_def)

lemma create_topic_fields:
  assumes "create_topic_from_group env g = Inr t"
  shows "g \<noteq> []"
    and "generate_topic_id env (hd g) = Inr (topic_id t)"
    and "message_ids t = map msg_id g"
    and "title t = generate_title g"
    and "participants t = set_listing env (map sender_name g)"
    and "initiator t = Some (sender_name (hd g))"
    and "start_time t = Some (timestamp (hd g))"
    and "end_time t = Some (timestamp (last g))"
    and "conclusion t = generate_conclusion g"
    and "message_count t = int (length g)"
    and "messages t = map (snapshot env) g"
  using assms by (cases g; auto simp: create_topic_from_group_def split: sum.splits)+


lemma topic_of_group:
  assumes "list_all2 (\<lambda>g t. create_topic_from_group env g = Inr t) groups topics" "t \<in> set topics"
  shows "\<exists>g \<in> set groups. create_topic_from_group env g = Inr t"
proof -
  from assms(2) obtain i where i: "i < length topics" "topics ! i = t"
    by (auto simp: in_set_conv_nth)
  with assms(1) have "i < length groups" "create_topic_from_group env (groups ! i) = Inr t"
    by (auto simp: list_all2_conv_all_nth)
  then show ?thesis using nth_mem by blast
qed


lemma uv_simps:
  "timestamp msgU = 0" "timestamp msgV = 10" "xml_content msgU = None" "xml_content msgV = None"
  "sender_name msgU = str ''alice''" "sender_name msgV = str ''bob''"
  by (simp_all add: msgU_def msgV_def mk_msg_def)

lemma cluster_UV:
  "cluster (example_env \<lparr>set_listing := f\<rparr>) default_config [msgU, msgV] = Some (Inr [[msgU, msgV]])"
  by (simp add: cluster_def group_by_time_window_def get_adaptive_window_def cfg_simps uv_simps
      merge_by_reply_relation_def extract_reply_relations_def group_relations_def
      List.map_filter_def extract_quoted_msg_id_def merge_by_semantic_similarity_def)

lemma run_UV:
  "run (example_env \<lparr>set_listing := f\<rparr>) default_config [msgU, msgV]
     = Some (create_topics (example_env \<lparr>set_listing := f\<rparr>) [[msgU, msgV]])"
  by (simp add: run_def uv_simps cluster_UV quality_filter_def cfg_simps)

lemma topics_of_run:
  assumes "run env cfg msgs = Some (Inr topics)" "t \<in> set topics"
  shows "\<exists>g. g \<noteq> [] \<and> sorted (map timestamp g) \<and> set g \<subseteq> set msgs
           \<and> create_topic_from_group env g = Inr t"
proof -
  from run_outcome [of env cfg msgs] obtain groups where
    wf: "well_formed groups"
    and ms: "mset (concat groups) = mset msgs"
    and run: "run env cfg msgs = Some (create_topics env (quality_filter cfg groups))"
    by blast
  from run assms(1) have "create_topics env (quality_filter cfg groups) = Inr topics" by simp
  from topic_of_group [OF create_topics_Inr [OF this] assms(2)] obtain g where
    g: "g \<in> set (quality_filter cfg groups)" "create_topic_from_group env g = Inr t"
    by blast
  then have gg: "g \<in> set groups" by (simp add: quality_filter_def)
  then have "set g \<subseteq> set (concat groups)" by auto
  then have "set g \<subseteq> set msgs" using ms by (metis mset_eq_setD)
  moreover have "g \<noteq> []" "sorted (map timestamp g)" using wf gg by (simp_all add: well_formed_def)
  ultimately show ?thesis using g(2) by blast
qed

lemma run_returns_or_raises:
  "run env cfg msgs \<noteq> None \<and> (\<forall>e. run env cfg msgs = Some (Inl e) \<longrightarrow> e = UnicodeEncodeError)"
proof -
  from run_outcome [of env cfg msgs] obtain groups where
    wf: "well_formed groups"
    and run: "run env cfg msgs = Some (create_topics env (quality_filter cfg groups))"
    by blast
  have "e = UnicodeEncodeError" if "run env cfg msgs = Some (Inl e)" for e
  proof -
    from that run have "create_topics env (quality_filter cfg groups) = Inl e" by simp
    from create_topics_Inl [OF this] obtain g where
      g: "g \<in> set (quality_filter cfg groups)" "create_topic_from_group env g = Inl e"
      by blast
    then have "g \<noteq> []" using wf by (simp add: well_formed_def quality_filter_def)
    with create_topic_raises [OF g(2)] show ?thesis by simp
  qed
  with run show ?thesis by simp
qed

lemma run_returns:
  assumes "\<forall>m \<in> set msgs. encodable (sender_id m) \<and> encodable (msg_id m)"
  shows "\<exists>topics. run env cfg msgs = Some (Inr topics)"
proof -
  from run_outcome [of env cfg msgs] obtain groups where
    wf: "well_formed groups"
    and ms: "mset (concat groups) = mset msgs"
    and run: "run env cfg msgs = Some (create_topics env (quality_filter cfg groups))"
    by blast
  have "g \<noteq> [] \<and> encodable (sender_id (hd g)) \<and> encodable (msg_id (hd g))"
    if "g \<in> set (quality_filter cfg groups)" for g
  proof -
    from that have gg: "g \<in> set groups" by (simp add: quality_filter_def)
    then have ne: "g \<noteq> []" using wf by (simp add: well_formed_def)
    then have "hd g \<in> set g" by simp
    then have "hd g \<in> set (concat groups)" using gg by auto
    then have "hd g \<in> set msgs" using ms by (metis mset_eq_setD)
    then show ?thesis using assms ne by simp
  qed
  then have "\<exists>topics. create_topics env (quality_filter cfg groups) = Inr topics"
    by (intro create_topics_total) blast
  with run show ?thesis by auto
qed

lemma encodable_example [simp]:
  "encodable (str ''alice'')" "encodable (str ''bob'')" "encodable (str ''u'')" "encodable (str ''v'')"
  by (simp_all add: encodable_def str_def is_surrogate_def)

lemma uv_ids:
  "sender_id msgU = str ''alice''" "sender_id msgV = str ''bob''"
  "msg_id msgU = str ''u''" "msg_id msgV = str ''v''"
  by (simp_all add: msgU_def msgV_def mk_msg_def)

section \<open>Rounding to binary64\<close>

text \<open>
  Bounds on \<open>fl\<close>: the result stays in the binade of its argument, the relative error is at
  most \<open>2\<^sup>-\<^sup>5\<^sup>3\<close>, products of a 53-bit integer and a power of two are exact, and the
  double rounding of the density never crosses one of the thresholds \<open>2\<close>, \<open>1\<close>, \<open>1/2\<close>
  in the wrong direction for spans below \<open>2\<^sup>5\<^sup>2\<close> seconds.
\<close>

lemma pow2_powi: "pow2 e = 2 powi e"
  by (simp add: pow2_def power_int_def power_one_over inverse_eq_divide)

lemma pow2_pos [simp]: "0 < pow2 e"
  by (simp add: pow2_powi)

lemma pow2_nonneg [simp]: "0 \<le> pow2 e"
  using pow2_pos [of e] by linarith

lemma pow2_nonzero [simp]: "pow2 e \<noteq> 0"
  using pow2_pos [of e] by linarith

lemma pow2_num: "pow2 52 = 2 ^ 52" "pow2 53 = 2 ^ 53" "pow2 1 = 2" "pow2 0 = 1" "pow2 (- 1) = 1 / 2"
  by (simp_all add: pow2_def)

lemma pow2_add: "pow2 (a + b) = pow2 a * pow2 b"
  by (simp add: pow2_powi power_int_add)

lemma pow2_mono: "a \<le> b \<Longrightarrow> pow2 a \<le> pow2 b"
  by (simp add: pow2_powi power_int_increasing)

lemma pow2_less_imp: "pow2 a < pow2 b \<Longrightarrow> a < b"
  using pow2_mono [of b a] by (cases "a < b") auto

lemma pow2_nat: "0 \<le> k \<Longrightarrow> pow2 k = 2 ^ nat k"
  by (simp add: pow2_def)

lemma ilog2_bounds:
  assumes "0 < x"
  shows "pow2 (ilog2 x) \<le> x \<and> x < pow2 (ilog2 x + 1)"
proof (cases "1 \<le> x")
  case True
  let ?n = "\<lfloor>x\<rfloor>"
  have n: "0 < ?n" using True by simp
  from bitlen_bounds [OF n]
  have b: "2 ^ nat (bitlen ?n - 1) \<le> ?n" "?n < 2 ^ nat (bitlen ?n)" by auto
  have b1: "1 \<le> bitlen ?n" using n by (simp add: bitlen_alt_def)
  have il: "ilog2 x = bitlen ?n - 1" using True by (simp add: ilog2_def)
  have "pow2 (ilog2 x) = of_int (2 ^ nat (bitlen ?n - 1))"
    using b1 by (simp add: il pow2_nat)
  also have "\<dots> \<le> of_int ?n" using b(1) by (simp only: of_int_le_iff)
  also have "\<dots> \<le> x" by simp
  finally have lo: "pow2 (ilog2 x) \<le> x" .
  have "?n + 1 \<le> 2 ^ nat (bitlen ?n)" using b(2) by simp
  then have "of_int (?n + 1) \<le> (of_int (2 ^ nat (bitlen ?n)) :: real)"
    by (simp only: of_int_le_iff)
  moreover have "x < of_int (?n + 1)" by linarith
  ultimately have "x < of_int (2 ^ nat (bitlen ?n))" by linarith
  then have "x < 2 ^ nat (bitlen ?n)" by simp
  then have "x < pow2 (ilog2 x + 1)" using b1 by (simp add: il pow2_nat)
  with lo show ?thesis by simp
next
  case False
  let ?c = "\<lceil>1 / x\<rceil>"
  have y: "1 < 1 / x" using False assms by simp
  then have c: "0 < ?c - 1" by linarith
  from bitlen_bounds [OF c]
  have b: "2 ^ nat (bitlen (?c - 1) - 1) \<le> ?c - 1" "?c - 1 < 2 ^ nat (bitlen (?c - 1))" by auto
  have b1: "1 \<le> bitlen (?c - 1)" using c by (simp add: bitlen_alt_def)
  let ?b = "bitlen (?c - 1)"
  have il: "ilog2 x = - ?b" using False by (simp add: ilog2_def)
  have "?c \<le> 2 ^ nat ?b" using b(2) by simp
  then have "of_int ?c \<le> (of_int (2 ^ nat ?b) :: real)" by (simp only: of_int_le_iff)
  moreover have "1 / x \<le> of_int ?c" by simp
  ultimately have "1 / x \<le> of_int (2 ^ nat ?b)" by linarith
  then have "1 / x \<le> 2 ^ nat ?b" by simp
  then have "1 \<le> 2 ^ nat ?b * x" using assms by (simp add: field_simps)
  then have lo: "pow2 (ilog2 x) \<le> x"
    using b1 by (simp add: il pow2_def field_simps)
  have "(of_int (2 ^ nat (?b - 1)) :: real) \<le> of_int (?c - 1)"
    using b(1) by (simp only: of_int_le_iff)
  moreover have "of_int (?c - 1) < 1 / x" by linarith
  ultimately have "of_int (2 ^ nat (?b - 1)) < 1 / x" by linarith
  then have "2 ^ nat (?b - 1) < 1 / x" by simp
  then have "2 ^ nat (?b - 1) * x < 1" using assms by (simp add: field_simps)
  then have "x < pow2 (ilog2 x + 1)"
  proof (cases "?b = 1")
    case True
    then show ?thesis using \<open>2 ^ nat (?b - 1) * x < 1\<close> by (simp add: il pow2_def)
  next
    case False
    then have "nat (?b - 1) = nat (- (1 - ?b))" "\<not> 0 \<le> 1 - ?b" using b1 by auto
    then show ?thesis
      using \<open>2 ^ nat (?b - 1) * x < 1\<close> by (simp add: il pow2_def field_simps)
  qed
  with lo show ?thesis by simp
qed

lemma ilog2_unique:
  assumes "pow2 k \<le> x" "x < pow2 (k + 1)"
  shows "ilog2 x = k"
proof -
  have x: "0 < x" using assms(1) pow2_pos [of k] by linarith
  from ilog2_bounds [OF x] have "pow2 (ilog2 x) < pow2 (k + 1)" "pow2 k < pow2 (ilog2 x + 1)"
    using assms by auto
  then have "ilog2 x < k + 1" "k < ilog2 x + 1" by (auto dest: pow2_less_imp)
  then show ?thesis by simp
qed

lemma round_even_int [simp]: "round_even (of_int n) = n"
  by (simp add: round_even_def)

lemma round_even_near: "\<bar>of_int (round_even x) - x\<bar> \<le> 1 / 2"
  unfolding round_even_def Let_def by (auto; linarith)

lemma round_even_ge: "of_int n \<le> x \<Longrightarrow> n \<le> round_even x"
  unfolding round_even_def Let_def by (auto simp: le_floor_iff; linarith)

lemma round_even_le: "x \<le> of_int n \<Longrightarrow> round_even x \<le> n"
proof -
  assume a: "x \<le> of_int n"
  then have f: "\<lfloor>x\<rfloor> \<le> n" by (simp add: floor_le_iff)
  show ?thesis
  proof (cases "\<lfloor>x\<rfloor> = n")
    case True
    then have "x = of_int n" using a by linarith
    then show ?thesis by simp
  next
    case False
    then have "\<lfloor>x\<rfloor> + 1 \<le> n" using f by simp
    then show ?thesis unfolding round_even_def Let_def by auto
  qed
qed

lemma round_even_tie:
  assumes "of_int n \<le> z" "z \<le> of_int n + 1 / 2" "even n"
  shows "round_even z = n"
proof -
  have f: "\<lfloor>z\<rfloor> = n" using assms(1,2) by linarith
  show ?thesis
    unfolding round_even_def Let_def f using assms by auto
qed

lemma round_even_up:
  assumes "of_int n + 1 / 2 < z"
  shows "n + 1 \<le> round_even z"
proof (cases "\<lfloor>z\<rfloor> = n")
  case True
  then show ?thesis unfolding round_even_def Let_def using assms by auto
next
  case False
  have "n \<le> \<lfloor>z\<rfloor>" using assms by linarith
  then have "of_int (n + 1) \<le> z" using False by linarith
  then show ?thesis by (rule round_even_ge)
qed

lemma fl_pos_eq:
  "0 < x \<Longrightarrow> fl x = of_int (round_even (x / pow2 (ilog2 x - 52))) * pow2 (ilog2 x - 52)"
  by (simp add: fl_def Let_def)

lemma fl_neg: "fl (- x) = - fl x"
  by (simp add: fl_def Let_def sgn_if)

lemma pow2_52: "pow2 k = 2 ^ 52 * pow2 (k - 52)"
  using pow2_add [of 52 "k - 52"] by (simp add: pow2_num)

lemma pow2_53: "pow2 (k + 1) = 2 ^ 53 * pow2 (k - 52)"
proof -
  have "k + 1 = 53 + (k - 52)" by simp
  then have "pow2 (k + 1) = pow2 53 * pow2 (k - 52)" by (simp only: pow2_add)
  then show ?thesis by (simp add: pow2_num)
qed

lemma pow2_Suc: "pow2 (k + 1) = pow2 k * 2"
  using pow2_add [of k 1] by (simp add: pow2_num)

lemma fl_in_binade:
  assumes "0 < x"
  shows "pow2 (ilog2 x) \<le> fl x \<and> fl x \<le> pow2 (ilog2 x + 1)"
proof -
  let ?e = "ilog2 x - 52"
  let ?z = "x / pow2 ?e"
  from ilog2_bounds [OF assms] have "2 ^ 52 * pow2 ?e \<le> x" "x < 2 ^ 53 * pow2 ?e"
    using pow2_52 [of "ilog2 x"] pow2_53 [of "ilog2 x"] by auto
  then have z: "of_int (2 ^ 52) \<le> ?z" "?z \<le> of_int (2 ^ 53)"
    by (simp_all add: field_simps)
  have "(2 ^ 52 :: int) \<le> round_even ?z" using z(1) by (rule round_even_ge)
  then have "(of_int (2 ^ 52) :: real) \<le> of_int (round_even ?z)" by (simp only: of_int_le_iff)
  then have lo: "2 ^ 52 * pow2 ?e \<le> of_int (round_even ?z) * pow2 ?e"
    by (simp add: mult_right_mono)
  have "round_even ?z \<le> 2 ^ 53" using z(2) by (rule round_even_le)
  then have "(of_int (round_even ?z) :: real) \<le> of_int (2 ^ 53)" by (simp only: of_int_le_iff)
  then have hi: "of_int (round_even ?z) * pow2 ?e \<le> 2 ^ 53 * pow2 ?e"
    by (simp add: mult_right_mono)
  show ?thesis
    using lo hi pow2_52 [of "ilog2 x"] pow2_53 [of "ilog2 x"] by (simp add: fl_pos_eq [OF assms])
qed

lemma fl_pos: "0 < x \<Longrightarrow> 0 < fl x"
  using fl_in_binade [of x] pow2_pos [of "ilog2 x"] by linarith

lemma fl_le_pow2:
  assumes "0 < x" "x < pow2 k"
  shows "fl x \<le> pow2 k"
proof -
  have "pow2 (ilog2 x) < pow2 k" using ilog2_bounds [OF assms(1)] assms(2) by linarith
  then have "ilog2 x + 1 \<le> k" using pow2_less_imp by fastforce
  then have "pow2 (ilog2 x + 1) \<le> pow2 k" by (rule pow2_mono)
  then show ?thesis using fl_in_binade [OF assms(1)] by linarith
qed

lemma fl_ge_pow2:
  assumes "pow2 k \<le> x"
  shows "pow2 k \<le> fl x"
proof -
  have x: "0 < x" using assms pow2_pos [of k] by linarith
  have "pow2 k < pow2 (ilog2 x + 1)" using ilog2_bounds [OF x] assms by linarith
  then have "k \<le> ilog2 x" using pow2_less_imp by fastforce
  then have "pow2 k \<le> pow2 (ilog2 x)" by (rule pow2_mono)
  then show ?thesis using fl_in_binade [OF x] by linarith
qed

lemma fl_tie_down:
  assumes "pow2 k \<le> x" "x \<le> pow2 k * (1 + 1 / 2 ^ 53)"
  shows "fl x = pow2 k"
proof -
  have x: "0 < x" using assms(1) pow2_pos [of k] by linarith
  have "pow2 k * (1 + 1 / 2 ^ 53) < pow2 k * 2"
    by (intro mult_strict_left_mono) simp_all
  then have "x < pow2 k * 2" using assms(2) by (rule le_less_trans [rotated])
  then have "x < pow2 (k + 1)" by (simp only: pow2_Suc)
  with assms(1) have il: "ilog2 x = k" by (rule ilog2_unique)
  let ?e = "k - 52"
  let ?z = "x / pow2 ?e"
  have "2 ^ 52 * pow2 ?e \<le> x" "x \<le> (2 ^ 52 * pow2 ?e) * (1 + 1 / 2 ^ 53)"
    using assms pow2_52 [of k] by simp_all
  then have "of_int (2 ^ 52) \<le> ?z" "?z \<le> of_int (2 ^ 52) + 1 / 2"
    by (simp_all add: field_simps)
  then have "round_even ?z = 2 ^ 52" by (rule round_even_tie) simp
  then show ?thesis using pow2_52 [of k] by (simp add: fl_pos_eq [OF x] il)
qed

lemma fl_gt_pow2:
  assumes "pow2 k * (1 + 1 / 2 ^ 53) < x"
  shows "pow2 k < fl x"
proof (cases "x < pow2 (k + 1)")
  case True
  have k: "pow2 k \<le> x"
  proof -
    have "pow2 k * 1 \<le> pow2 k * (1 + 1 / 2 ^ 53)" by (intro mult_left_mono) simp_all
    then have "pow2 k * 1 < x" using assms by (rule le_less_trans)
    then show ?thesis by simp
  qed
  then have x: "0 < x" using pow2_pos [of k] by linarith
  from k True have il: "ilog2 x = k" by (rule ilog2_unique)
  let ?e = "k - 52"
  let ?z = "x / pow2 ?e"
  have "(2 ^ 52 * pow2 ?e) * (1 + 1 / 2 ^ 53) < x"
    using assms pow2_52 [of k] by simp
  then have "of_int (2 ^ 52) + 1 / 2 < ?z" by (simp add: field_simps)
  then have "2 ^ 52 + 1 \<le> round_even ?z" by (rule round_even_up)
  then have "(of_int (2 ^ 52 + 1) :: real) \<le> of_int (round_even ?z)" by (simp only: of_int_le_iff)
  then have "(2 ^ 52 + 1) * pow2 ?e \<le> of_int (round_even ?z) * pow2 ?e"
    by (simp add: mult_right_mono)
  moreover have "2 ^ 52 * pow2 ?e < (2 ^ 52 + 1) * pow2 ?e"
    by (intro mult_strict_right_mono) simp_all
  ultimately show ?thesis using pow2_52 [of k] by (simp add: fl_pos_eq [OF x] il)
next
  case False
  then have "pow2 (k + 1) \<le> fl x" by (intro fl_ge_pow2) simp
  moreover have "pow2 k < pow2 (k + 1)" by (simp add: pow2_Suc)
  ultimately show ?thesis by linarith
qed

lemma fl_rel_error:
  assumes "0 < x"
  shows "\<bar>fl x - x\<bar> \<le> x / 2 ^ 53"
proof -
  let ?e = "ilog2 x - 52"
  let ?z = "x / pow2 ?e"
  have "fl x - x = (of_int (round_even ?z) - ?z) * pow2 ?e"
    by (simp add: fl_pos_eq [OF assms] field_simps)
  then have "\<bar>fl x - x\<bar> = \<bar>of_int (round_even ?z) - ?z\<bar> * pow2 ?e"
    by (simp add: abs_mult)
  also have "\<dots> \<le> 1 / 2 * pow2 ?e"
    using round_even_near [of ?z] by (intro mult_right_mono) simp_all
  also have "\<dots> \<le> x / 2 ^ 53"
    using ilog2_bounds [OF assms] pow2_52 [of "ilog2 x"] by simp
  finally show ?thesis .
qed

lemma fl_exact_pos:
  assumes "0 < m" "m < 2 ^ 53"
  shows "fl (of_int m * pow2 e) = of_int m * pow2 e"
proof -
  let ?x = "of_int m * pow2 e"
  have x: "0 < ?x" using assms(1) by simp
  let ?k = "ilog2 ?x"
  have "of_int m < (of_int (2 ^ 53) :: real)" using assms(2) by (simp only: of_int_less_iff)
  then have "?x < 2 ^ 53 * pow2 e" by simp
  also have "\<dots> = pow2 (53 + e)" using pow2_add [of 53 e] by (simp add: pow2_num)
  finally have "pow2 ?k < pow2 (53 + e)" using ilog2_bounds [OF x] by linarith
  then have "?k < 53 + e" by (rule pow2_less_imp)
  then have d: "0 \<le> e - (?k - 52)" by simp
  have "pow2 e = pow2 (e - (?k - 52)) * pow2 (?k - 52)"
    using pow2_add [of "e - (?k - 52)" "?k - 52"] by simp
  then have pe: "pow2 e = 2 ^ nat (e - (?k - 52)) * pow2 (?k - 52)"
    using d by (simp add: pow2_nat)
  have "?x / pow2 (?k - 52) = of_int (m * 2 ^ nat (e - (?k - 52)))"
    by (subst pe) simp
  then have "round_even (?x / pow2 (?k - 52)) = m * 2 ^ nat (e - (?k - 52))"
    by (simp only: round_even_int)
  then have "fl ?x = of_int (m * 2 ^ nat (e - (?k - 52))) * pow2 (?k - 52)"
    by (simp only: fl_pos_eq [OF x])
  also have "\<dots> = ?x" by (subst (2) pe) simp
  finally show ?thesis .
qed

lemma fl_exact:
  assumes "\<bar>m\<bar> < 2 ^ 53"
  shows "fl (of_int m * pow2 e) = of_int m * pow2 e"
proof -
  consider "m = 0" | "0 < m" | "m < 0" by linarith
  then show ?thesis
  proof cases
    case 1
    then show ?thesis by (simp add: fl_def)
  next
    case 2
    then show ?thesis using assms by (intro fl_exact_pos) simp_all
  next
    case 3
    then have "fl (of_int (- m) * pow2 e) = of_int (- m) * pow2 e"
      using assms by (intro fl_exact_pos) simp_all
    then show ?thesis using fl_neg [of "of_int m * pow2 e"] by simp
  qed
qed

lemma fl_nonpos: "x \<le> 0 \<Longrightarrow> fl x \<le> 0"
proof (cases "x = 0")
  case True
  then show ?thesis by (simp add: fl_def)
next
  case False
  assume "x \<le> 0"
  with False have "0 < - x" by simp
  then have "0 < fl (- x)" by (rule fl_pos)
  then show ?thesis by (simp add: fl_neg)
qed

lemma density_above:
  fixes s c :: int and n :: nat
  assumes s: "0 < s" "s < 2 ^ 52" and c: "of_int c * pow2 t = 60" and gt: "s < c * int n"
  shows "pow2 t < fl (fl (of_nat n / of_int s) * 60)"
proof -
  define u :: real where "u = 1 / 2 ^ 53"
  define S :: real where "S = of_int s"
  define N :: real where "N = of_int c * of_nat n"
  let ?q = "of_nat n / S"
  have S: "0 < S" "S \<le> 2 ^ 52 - 1"
  proof -
    show "0 < S" using s(1) by (simp add: S_def)
    have "s \<le> 2 ^ 52 - 1" using s(2) by simp
    then have "of_int s \<le> (of_int (2 ^ 52 - 1) :: real)" by (simp only: of_int_le_iff)
    then show "S \<le> 2 ^ 52 - 1" by (simp add: S_def)
  qed
  have "s + 1 \<le> c * int n" using gt by simp
  then have "of_int (s + 1) \<le> (of_int (c * int n) :: real)" by (simp only: of_int_le_iff)
  then have N: "S + 1 \<le> N" by (simp add: S_def N_def)
  have n: "0 < n" using gt s(1) by (cases n) auto
  then have q: "0 < ?q" using S(1) by simp
  have u: "0 < u" "u < 1" by (simp_all add: u_def)
  have lin: "S * (1 + u) < (S + 1) * (1 - u)"
  proof -
    have "2 * S * u < 1 - u" using S(2) by (simp add: u_def)
    then show ?thesis by (simp add: algebra_simps)
  qed
  have "(S + 1) * (1 - u) \<le> N * (1 - u)"
    using N u by (intro mult_right_mono) simp_all
  with lin have key: "S * (1 + u) < N * (1 - u)" by linarith
  have f1: "?q * (1 - u) \<le> fl ?q"
    using fl_rel_error [OF q] by (simp add: u_def algebra_simps abs_le_iff)
  have "pow2 t * (1 + u) = pow2 t * (S * (1 + u)) / S" using S(1) by simp
  also have "\<dots> < pow2 t * (N * (1 - u)) / S"
    using key S(1) by (intro divide_strict_right_mono mult_strict_left_mono) simp_all
  also have "\<dots> = 60 * (?q * (1 - u))"
    using c by (simp add: N_def) (simp add: field_simps)
  also have "\<dots> \<le> 60 * fl ?q" using f1 by simp
  finally have "pow2 t * (1 + 1 / 2 ^ 53) < fl ?q * 60" by (simp add: u_def mult.commute)
  then show ?thesis unfolding S_def by (rule fl_gt_pow2)
qed

lemma density_not_above:
  fixes s c :: int and n :: nat
  assumes s: "0 < s" and c: "of_int c * pow2 t = 60" "0 < c" and le: "c * int n \<le> s" and n: "0 < n"
  shows "fl (fl (of_nat n / of_int s) * 60) \<le> pow2 t"
proof -
  define u :: real where "u = 1 / 2 ^ 53"
  define S :: real where "S = of_int s"
  define N :: real where "N = of_int c * of_nat n"
  let ?q = "of_nat n / S"
  have S: "0 < S" using s by (simp add: S_def)
  have "of_int (c * int n) \<le> (of_int s :: real)" using le by (simp only: of_int_le_iff)
  then have N: "N \<le> S" by (simp add: S_def N_def)
  have q: "0 < ?q" using S n by simp
  have u: "0 < u" by (simp add: u_def)
  have f1: "fl ?q \<le> ?q * (1 + u)"
    using fl_rel_error [OF q] by (simp add: u_def algebra_simps abs_le_iff)
  have pos: "0 < fl ?q * 60" using fl_pos [OF q] by simp
  have "fl ?q * 60 \<le> 60 * (?q * (1 + u))" using f1 by simp
  also have "\<dots> = pow2 t * (N * (1 + u)) / S"
    using c(1) by (simp add: N_def) (simp add: field_simps)
  also have "\<dots> \<le> pow2 t * (S * (1 + u)) / S"
    using N S u by (intro divide_right_mono mult_left_mono mult_right_mono) simp_all
  also have "\<dots> = pow2 t * (1 + u)" using S by simp
  finally have hi: "fl ?q * 60 \<le> pow2 t * (1 + 1 / 2 ^ 53)" by (simp add: u_def)
  show ?thesis
  proof (cases "fl ?q * 60 < pow2 t")
    case True
    with pos show ?thesis unfolding S_def by (intro fl_le_pow2)
  next
    case False
    then have "pow2 t \<le> fl ?q * 60" by simp
    from fl_tie_down [OF this hi] show ?thesis unfolding S_def by simp
  qed
qed

lemma density_threshold:
  fixes s c :: int and n :: nat
  assumes "0 < s" "s < 2 ^ 52" "of_int c * pow2 t = 60" "0 < c" "0 < n"
  shows "pow2 t < fl (fl (of_nat n / of_int s) * 60) \<longleftrightarrow> s < c * int n"
proof
  assume "s < c * int n"
  then show "pow2 t < fl (fl (of_nat n / of_int s) * 60)"
    using assms by (intro density_above)
next
  assume a: "pow2 t < fl (fl (of_nat n / of_int s) * 60)"
  show "s < c * int n"
  proof (rule ccontr)
    assume "\<not> s < c * int n"
    then have "c * int n \<le> s" by simp
    from density_not_above [OF assms(1,3,4) this assms(5)] a show False by simp
  qed
qed

lemma exact_density_threshold:
  fixes s c :: int and n :: nat
  assumes "0 < s" "of_int c * pow2 t = 60"
  shows "pow2 t < of_nat n / (of_int s / 60) \<longleftrightarrow> s < c * int n"
proof -
  have "pow2 t < of_nat n / (of_int s / 60) \<longleftrightarrow> pow2 t * of_int s < (of_int c * pow2 t) * of_nat n"
    using assms(1) by (simp add: assms(2) field_simps)
  also have "\<dots> \<longleftrightarrow> pow2 t * of_int s < pow2 t * (of_int c * of_nat n)"
    by (simp only: mult_ac)
  also have "\<dots> \<longleftrightarrow> (of_int s :: real) < of_int (c * int n)"
    by (simp only: mult_less_cancel_left_pos [OF pow2_pos] of_int_mult of_int_of_nat_eq)
  also have "\<dots> \<longleftrightarrow> s < c * int n" by (simp only: of_int_less_iff)
  finally show ?thesis .
qed

lemma density_compare:
  assumes n: "0 < length g" and s: "timestamp (last g) - timestamp (hd g) < 2 ^ 52"
    and c: "of_int c * pow2 t = 60" "0 < c"
  shows "pow2 t < density g \<longleftrightarrow> pow2 t < exact_density g"
proof -
  define sp where "sp = timestamp (last g) - timestamp (hd g)"
  consider "sp = 0" | "0 < sp" | "sp < 0" by linarith
  then show ?thesis
  proof cases
    case 1
    then show ?thesis by (simp add: density_def exact_density_def sp_def)
  next
    case 2
    have "pow2 t < fl (fl (of_nat (length g) / of_int sp) * 60) \<longleftrightarrow> sp < c * int (length g)"
      using 2 s c n unfolding sp_def [symmetric] by (intro density_threshold)
    moreover have "pow2 t < of_nat (length g) / (of_int sp / 60) \<longleftrightarrow> sp < c * int (length g)"
      using 2 c(1) by (rule exact_density_threshold)
    ultimately show ?thesis
      using 2 by (simp add: density_def exact_density_def sp_def [symmetric] Let_def)
  next
    case 3
    have "of_nat (length g) / real_of_int sp \<le> 0"
      using 3 by (simp add: divide_nonneg_neg divide_le_0_iff)
    then have "fl (of_nat (length g) / real_of_int sp) \<le> 0" by (rule fl_nonpos)
    then have "fl (of_nat (length g) / real_of_int sp) * 60 \<le> 0" by simp
    then have d: "fl (fl (of_nat (length g) / real_of_int sp) * 60) \<le> 0" by (rule fl_nonpos)
    have e: "of_nat (length g) / (real_of_int sp / 60) \<le> 0"
      using 3 by (simp add: divide_le_0_iff)
    have "\<not> pow2 t < fl (fl (of_nat (length g) / real_of_int sp) * 60)"
      using d pow2_pos [of t] by linarith
    moreover have "\<not> pow2 t < of_nat (length g) / (real_of_int sp / 60)"
      using e pow2_pos [of t] by linarith
    ultimately show ?thesis
      using 3 by (simp only: density_def exact_density_def sp_def [symmetric] Let_def) simp
  qed
qed

lemma density_thresholds:
  assumes "0 < length g" and "timestamp (last g) - timestamp (hd g) < 2 ^ 52"
  shows "2 < density g \<longleftrightarrow> 2 < exact_density g"
    and "1 < density g \<longleftrightarrow> 1 < exact_density g"
    and "1 / 2 < density g \<longleftrightarrow> 1 / 2 < exact_density g"
  using density_compare [OF assms, of 30 1] density_compare [OF assms, of 60 0]
    density_compare [OF assms, of 120 "- 1"]
  by (simp_all add: pow2_def)

lemma fl_of_int: "\<bar>m\<bar> < 2 ^ 53 \<Longrightarrow> fl (of_int m) = of_int m"
  using fl_exact [of m 0] by (simp add: pow2_def)

lemma fl_half_window:
  assumes "\<bar>tw\<bar> < (2 :: int) ^ 53"
  shows "fl (fl (of_int tw) * (1 / 2)) = of_int tw * (1 / 2)"
  using fl_exact [OF assms, of "- 1"] by (simp add: fl_of_int [OF assms] pow2_def)

lemma fl_three_halves_window:
  assumes "\<bar>tw\<bar> < (2 :: int) ^ 51"
  shows "fl (fl (of_int tw) * (3 / 2)) = of_int tw * (3 / 2)"
proof -
  have a: "\<bar>tw\<bar> < 2 ^ 53" and b: "\<bar>3 * tw\<bar> < 2 ^ 53" using assms by simp_all
  have "real_of_int tw * (3 / 2) = of_int (3 * tw) * pow2 (- 1)" by (simp add: pow2_def)
  then have "fl (real_of_int tw * (3 / 2)) = real_of_int tw * (3 / 2)"
    using fl_exact [OF b, of "- 1"] by (simp only:)
  then show ?thesis by (simp only: fl_of_int [OF a])
qed

section \<open>C5: the quality filter\<close>

text \<open>
  Claim C5.  The quality filter keeps exactly the groups whose message count is at least
  \<open>min_messages\<close>: it is the list filter with that test, every surviving group has that
  many messages, every group that is dropped has fewer, and the survivors are a
  subsequence of the input (nothing merged, nothing reordered).
\<close>

theorem quality_filter_exact:
  "quality_filter cfg groups = filter (\<lambda>g. min_messages cfg \<le> int (length g)) groups
   \<and> (\<forall>g \<in> set (quality_filter cfg groups). min_messages cfg \<le> int (length g))
   \<and> (\<forall>g \<in> set groups. g \<notin> set (quality_filter cfg groups) \<longrightarrow> int (length g) < min_messages cfg)
   \<and> subseq (quality_filter cfg groups) groups"
  by (auto simp add: quality_filter_def)

theorem quality_filter_exact_witness:
  "quality_filter default_config [[msgA], [msgP, msgQ], [], [msgQ, msgR, msgD]]
     = [[msgP, msgQ], [msgQ, msgR, msgD]]
   \<and> subseq (quality_filter default_config [[msgA], [msgP, msgQ], [], [msgQ, msgR, msgD]])
        [[msgA], [msgP, msgQ], [], [msgQ, msgR, msgD]]"
  using quality_filter_exact [of default_config "[[msgA], [msgP, msgQ], [], [msgQ, msgR, msgD]]"]
  by (simp add: cfg_simps)

section \<open>C2: the partition invariant\<close>

text \<open>
  Claim C2.  Each of the three clustering stages keeps the exact multiset of messages:
  the time-window grouper even keeps their order, the reply-chain linker always returns
  (the union-find loops end and no index is out of range) with the same messages, and so
  does the semantic merger.  Hence the groups that reach the quality filter hold every
  input message exactly once, for every input.
\<close>

theorem partition_invariant:
  "concat (group_by_time_window cfg sorted_messages) = sorted_messages
   \<and> (\<exists>out. merge_by_reply_relation env groups = Some (Inr out)
          \<and> mset (concat out) = mset (concat groups))
   \<and> mset (concat (merge_by_semantic_similarity env cfg groups)) = mset (concat groups)
   \<and> (\<exists>final. cluster env cfg (sort_key timestamp msgs) = Some (Inr final)
          \<and> mset (concat final) = mset msgs
          \<and> mset (map msg_id (concat final)) = mset (map msg_id msgs))"
proof -
  obtain final where f: "cluster env cfg (sort_key timestamp msgs) = Some (Inr final)"
    "mset (concat final) = mset (sort_key timestamp msgs)"
    using cluster_total by blast
  have "mset (map msg_id (concat final)) = mset (map msg_id msgs)"
    using f(2) by (metis mset_map mset_sort)
  then show ?thesis
    using f concat_group_by_time_window merge_by_reply_relation_total
      mset_merge_by_semantic_similarity
    by auto
qed

lemma sorted_DA: "sort_key timestamp [msgD, msgA] = [msgA, msgD]"
  by (simp add: example_defs)

lemma stage1_AD: "group_by_time_window default_config [msgA, msgD] = [[msgA], [msgD]]"
  by (simp add: group_by_time_window_def get_adaptive_window_def example_defs)

lemma quoted_D: "extract_quoted_msg_id example_env msgD = Some (msg_id msgA)"
  by (simp add: extract_quoted_msg_id_def example_defs)

lemma quoted_A: "extract_quoted_msg_id example_env msgA = None"
  by (simp add: extract_quoted_msg_id_def example_defs)

lemma stage2_AD: "merge_by_reply_relation example_env [[msgA], [msgD]] = Some (Inr [[msgA], [msgD]])"
  by (simp add: merge_by_reply_relation_def extract_reply_relations_def group_relations_def
      List.map_filter_def quoted_D quoted_A) (simp add: example_defs)

lemma texts_AD: "map get_group_text [[msgA], [msgD]] = [str ''hello'', str ''reply'']"
  by (simp add: get_group_text_def example_defs)

lemma sims_AD:
  "compute_semantic_similarities example_env [str ''hello'', str ''reply''] = [[1, 0], [0, 1]]"
  by (simp add: compute_semantic_similarities_def strip_def is_space_def
      readable_def zeros_def set_entry_def enumerate_eq_zip upt_rec example_defs)

lemma stage3_AD:
  "merge_by_semantic_similarity example_env default_config [[msgA], [msgD]] = [[msgA], [msgD]]"
  unfolding merge_by_semantic_similarity_greedy texts_AD sims_AD
  by (simp add: cfg_simps upt_rec similar_to_def merged_messages_def)

lemma cluster_AD:
  "cluster example_env default_config [msgA, msgD] = Some (Inr [[msgA], [msgD]])"
  by (simp add: cluster_def stage1_AD stage2_AD stage3_AD cfg_simps)

theorem partition_invariant_witness:
  "\<exists>final. cluster example_env default_config (sort_key timestamp [msgD, msgA]) = Some (Inr final)
      \<and> mset (map msg_id (concat final)) = mset (map msg_id [msgD, msgA])"
  using partition_invariant [of default_config _ example_env _ "[msgD, msgA]"] by blast

section \<open>C1: reply-linked messages in different time windows\<close>

text \<open>
  Claim C1, at scenario C of the specification: message \<open>msgA\<close> at \<open>t = 0\<close> and message
  \<open>msgD\<close> at \<open>t = 1000\<close> whose payload quotes the id of \<open>msgA\<close>.  The code puts them in
  two time-window groups and the reply-chain linker leaves the two groups apart, because
  \<open>_extract_reply_relations\<close> only records a quotation of an id of the same group; with
  the default \<open>min_messages\<close> no topic is produced at all.
\<close>

theorem reply_link_scenario_c:
  "extract_quoted_msg_id example_env msgD = Some (msg_id msgA)
   \<and> group_by_time_window default_config (sort_key timestamp [msgA, msgD]) = [[msgA], [msgD]]
   \<and> merge_by_reply_relation example_env [[msgA], [msgD]] = Some (Inr [[msgA], [msgD]])
   \<and> cluster example_env default_config (sort_key timestamp [msgA, msgD]) = Some (Inr [[msgA], [msgD]])
   \<and> run example_env default_config [msgA, msgD] = Some (Inr [])"
  by (simp add: quoted_D ts_simps stage1_AD stage2_AD cluster_AD run_def quality_filter_def cfg_simps)

section \<open>C4: the semantic merger is a single greedy pass\<close>

lemma texts_PQR:
  "map get_group_text [[msgP], [msgQ], [msgR]] = [str ''apple'', str ''apple banana'', str ''banana'']"
  by (simp add: get_group_text_def example_defs)

lemma sims_PQR:
  "compute_semantic_similarities chain_env [str ''apple'', str ''apple banana'', str ''banana'']
     = [[1, 3 / 5, 0], [3 / 5, 1, 4 / 5], [0, 4 / 5, 1]]"
  by (simp add: compute_semantic_similarities_def strip_def is_space_def
      readable_def zeros_def set_entry_def enumerate_eq_zip upt_rec example_defs)

text \<open>
  Claim C4.  \<open>greedy_merge\<close> is the merge as the specification words it: the first
  unconsumed index absorbs every later unconsumed index that is similar to it, and the pass
  goes on with the indices left.  The loop of the source computes exactly that, each merged
  group being the concatenation of its groups sorted by timestamp.  The merge is not
  transitive: with similarities \<open>0.6\<close> between groups 0 and 1, \<open>0.8\<close> between 1 and 2 and
  \<open>0\<close> between 0 and 2, groups 0 and 2 end in different final groups.
\<close>

theorem semantic_merge_greedy:
  "merge_by_semantic_similarity env cfg groups =
     (if length groups \<le> 1 then groups
      else map (merged_messages groups)
             (greedy_merge
                (similar_to (compute_semantic_similarities env (map get_group_text groups))
                   (semantic_threshold cfg))
                [0..<length groups]))
   \<and> (let S = compute_semantic_similarities chain_env (map get_group_text [[msgP], [msgQ], [msgR]]);
           threshold = semantic_threshold default_config
       in S ! 0 ! 1 \<ge> threshold \<and> S ! 1 ! 2 \<ge> threshold \<and> S ! 0 ! 2 < threshold
          \<and> merge_by_semantic_similarity chain_env default_config [[msgP], [msgQ], [msgR]]
              = [[msgP, msgQ], [msgR]])"
proof
  show "merge_by_semantic_similarity env cfg groups =
     (if length groups \<le> 1 then groups
      else map (merged_messages groups)
             (greedy_merge
                (similar_to (compute_semantic_similarities env (map get_group_text groups))
                   (semantic_threshold cfg))
                [0..<length groups]))"
    by (rule merge_by_semantic_similarity_greedy)
next
  have thr: "semantic_threshold default_config = 3 / 10"
    by (simp add: default_config_def)
  have "merge_by_semantic_similarity chain_env default_config [[msgP], [msgQ], [msgR]]
      = [[msgP, msgQ], [msgR]]"
    unfolding merge_by_semantic_similarity_greedy texts_PQR sims_PQR thr
    by (simp add: upt_rec similar_to_def merged_messages_def ts_simps)
  then show "let S = compute_semantic_similarities chain_env (map get_group_text [[msgP], [msgQ], [msgR]]);
           threshold = semantic_threshold default_config
       in S ! 0 ! 1 \<ge> threshold \<and> S ! 1 ! 2 \<ge> threshold \<and> S ! 0 ! 2 < threshold
          \<and> merge_by_semantic_similarity chain_env default_config [[msgP], [msgQ], [msgR]]
              = [[msgP, msgQ], [msgR]]"
    unfolding texts_PQR sims_PQR thr by (simp add: Let_def)
qed

theorem semantic_merge_greedy_witness:
  "merge_by_semantic_similarity example_env default_config [[msgA], [msgD]] = [[msgA], [msgD]]"
proof -
  note semantic_merge_greedy [THEN conjunct1, of example_env default_config "[[msgA], [msgD]]"]
  then show ?thesis
    unfolding texts_AD sims_AD
    by (simp add: cfg_simps upt_rec similar_to_def merged_messages_def)
qed

section \<open>C8: the fallback of the semantic stage\<close>

lemma filter_by_index:
  "map ((!) texts) (filter (\<lambda>i. P (texts ! i)) [0..<length texts]) = filter P texts"
proof -
  have "map ((!) texts) (filter (\<lambda>i. P (texts ! i)) [0..<length texts])
      = filter P (map ((!) texts) [0..<length texts])"
    by (simp add: filter_map comp_def)
  then show ?thesis by (simp add: map_nth)
qed

lemma valid_texts:
  "map ((!) texts) (filter (\<lambda>i. strip (texts ! i) \<noteq> []) [0..<length texts])
     = filter (\<lambda>t. strip t \<noteq> []) texts"
  by (rule filter_by_index [of texts "\<lambda>t. strip t \<noteq> []"])

lemma valid_count:
  "length (filter (\<lambda>i. strip (texts ! i) \<noteq> []) [0..<length texts])
     = length (filter (\<lambda>t. strip t \<noteq> []) texts)"
  using valid_texts [of texts] by (metis length_map)

lemma strip_Nil [simp]: "strip [] = []"
  by (simp add: strip_def)

lemma nonblank_le_nonempty:
  "length (filter (\<lambda>t. strip t \<noteq> []) texts) \<le> length (filter (\<lambda>t. t \<noteq> []) texts)"
proof (induction texts)
  case Nil
  then show ?case by simp
next
  case (Cons t texts)
  then show ?case by (cases "t = []") auto
qed

lemma compute_zeros:
  assumes "length (filter (\<lambda>t. t \<noteq> []) texts) < 2
         \<or> length (filter (\<lambda>t. strip t \<noteq> []) texts) < 2
         \<or> tfidf_cosine env (filter (\<lambda>t. strip t \<noteq> []) texts) = None"
  shows "compute_semantic_similarities env texts = zeros (length texts)"
proof (cases "length (filter (\<lambda>t. strip t \<noteq> []) texts) < 2")
  case True
  then show ?thesis
    by (simp add: compute_semantic_similarities_def Let_def valid_count)
next
  case False
  with assms nonblank_le_nonempty [of texts]
  have "tfidf_cosine env (filter (\<lambda>t. strip t \<noteq> []) texts) = None" by auto
  then show ?thesis
    by (simp add: compute_semantic_similarities_def Let_def valid_count valid_texts)
qed

lemma zeros_nth: "i < n \<Longrightarrow> j < n \<Longrightarrow> zeros n ! i ! j = 0"
  by (simp add: zeros_def)

lemma greedy_merge_nothing_similar:
  "(\<forall>i \<in> set xs. \<forall>j \<in> set xs. \<not> sim i j) \<Longrightarrow> greedy_merge sim xs = map (\<lambda>i. [i]) xs"
proof (induction xs)
  case Nil
  then show ?case by simp
next
  case (Cons i xs)
  then have "filter (sim i) xs = []" "filter (\<lambda>j. \<not> sim i j) xs = xs"
    by (auto simp: filter_empty_conv filter_id_conv)
  with Cons show ?case by simp
qed

lemma merge_with_zeros:
  assumes zero: "compute_semantic_similarities env (map get_group_text groups) = zeros (length groups)"
    and thr: "0 < semantic_threshold cfg"
    and srt: "\<forall>g \<in> set groups. sorted (map timestamp g)"
  shows "merge_by_semantic_similarity env cfg groups = groups"
proof (cases "length groups \<le> 1")
  case True
  then show ?thesis by (simp add: merge_by_semantic_similarity_greedy)
next
  case False
  let ?sim = "similar_to (zeros (length groups)) (semantic_threshold cfg)"
  have "\<forall>i \<in> set [0..<length groups]. \<forall>j \<in> set [0..<length groups]. \<not> ?sim i j"
    using thr by (simp add: similar_to_def zeros_nth)
  then have g: "greedy_merge ?sim [0..<length groups] = map (\<lambda>i. [i]) [0..<length groups]"
    by (rule greedy_merge_nothing_similar)
  have "map (merged_messages groups) (map (\<lambda>i. [i]) [0..<length groups])
      = map (\<lambda>i. groups ! i) [0..<length groups]"
    using srt by (auto simp: merged_messages_def sort_key_id_if_sorted)
  then show ?thesis
    using False zero g by (simp add: merge_by_semantic_similarity_greedy map_nth)
qed

text \<open>
  Claim C8, as amended.  When fewer than two representative texts are non-empty (or
  non-blank, which is what the code tests), or when the text backend raises,
  \<open>_compute_semantic_similarities\<close> returns the all-zero matrix.  With the all-zero matrix
  and a positive \<open>semantic_threshold\<close> no two groups are merged, and a list of
  timestamp-sorted groups is returned as it is.
\<close>

theorem semantic_fallback:
  "(length (filter (\<lambda>t. t \<noteq> []) texts) < 2
      \<or> length (filter (\<lambda>t. strip t \<noteq> []) texts) < 2
      \<or> tfidf_cosine env (filter (\<lambda>t. strip t \<noteq> []) texts) = None
    \<longrightarrow> compute_semantic_similarities env texts = zeros (length texts))
   \<and> (compute_semantic_similarities env (map get_group_text groups) = zeros (length groups)
        \<and> 0 < semantic_threshold cfg \<and> (\<forall>g \<in> set groups. sorted (map timestamp g))
      \<longrightarrow> merge_by_semantic_similarity env cfg groups = groups)"
  using compute_zeros [of texts env] merge_with_zeros [of env groups cfg] by blast

lemma texts_img: "get_group_text [img1] = []" "get_group_text [img2] = []"
  by (simp_all add: get_group_text_def example_defs)

theorem semantic_fallback_witness:
  "compute_semantic_similarities example_env [[], []] = zeros 2
   \<and> merge_by_semantic_similarity example_env default_config [[img1], [img2]] = [[img1], [img2]]"
proof -
  have 1: "compute_semantic_similarities example_env [[], []] = zeros 2"
    using semantic_fallback [THEN conjunct1, of "[[], []]" example_env]
    by (simp add: numeral_2_eq_2)
  have "merge_by_semantic_similarity example_env default_config [[img1], [img2]] = [[img1], [img2]]"
    using semantic_fallback [THEN conjunct2, of example_env "[[img1], [img2]]" default_config] 1
    by (simp add: texts_img cfg_simps ts_simps numeral_2_eq_2)
  with 1 show ?thesis by simp
qed

text \<open>
  The claim as stated, for every configuration, fails at \<open>semantic_threshold = 0\<close>: the
  test \<open>similarities[i][j] >= threshold\<close> holds for the zero matrix and the two groups of
  placeholder messages are merged into one.
\<close>

theorem semantic_fallback_zero_threshold:
  "compute_semantic_similarities example_env (map get_group_text [[img1], [img2]]) = zeros 2
   \<and> merge_by_semantic_similarity example_env (default_config \<lparr>semantic_threshold := 0\<rparr>)
        [[img1], [img2]] = [[img1, img2]]
   \<and> merge_by_semantic_similarity example_env (default_config \<lparr>semantic_threshold := 0\<rparr>)
        [[img1], [img2]] \<noteq> [[img1], [img2]]"
proof -
  have z: "compute_semantic_similarities example_env [[], []] = zeros 2"
    using compute_zeros [of "[[], []]" example_env] by (simp add: numeral_2_eq_2)
  have "merge_by_semantic_similarity example_env (default_config \<lparr>semantic_threshold := 0\<rparr>)
        [[img1], [img2]] = [[img1, img2]]"
    by (simp add: merge_by_semantic_similarity_greedy texts_img z upt_rec similar_to_def
        merged_messages_def zeros_def ts_simps)
  then show ?thesis using z by (simp add: texts_img)
qed

section \<open>C7: the conclusion of a topic\<close>

lemma length_join_cap:
  "length (if length c > 300 then take 300 c @ str ''...'' else c) \<le> 303"
  by (simp add: str_def)

text \<open>
  Claim C7, as amended.  For a group of at least two messages the conclusion is built from
  the substantive messages among the first five messages of the group: each content is cut
  to 100 characters and stripped, the pieces are joined with the separator, and a result of
  more than 300 characters is cut to 300 characters followed by an ellipsis (so at most 303
  characters).  The conclusion is null when the group has fewer than two messages or none
  of its first five messages is substantive, in particular when no message is.
\<close>

theorem conclusion_of_first_five:
  "generate_conclusion msgs =
     (if length msgs < 2 \<or> filter substantive (take 5 msgs) = [] then None
      else let joined = join (str '' | '')
                 (map (\<lambda>m. strip (take 100 (content m))) (filter substantive (take 5 msgs)))
           in Some (if length joined > 300 then take 300 joined @ str ''...'' else joined))
   \<and> (length msgs < 2 \<or> (\<forall>m \<in> set msgs. \<not> substantive m) \<longrightarrow> generate_conclusion msgs = None)
   \<and> (\<forall>c. generate_conclusion msgs = Some c \<longrightarrow> length c \<le> 303)"
proof (intro conjI)
  show 1: "generate_conclusion msgs =
     (if length msgs < 2 \<or> filter substantive (take 5 msgs) = [] then None
      else let joined = join (str '' | '')
                 (map (\<lambda>m. strip (take 100 (content m))) (filter substantive (take 5 msgs)))
           in Some (if length joined > 300 then take 300 joined @ str ''...'' else joined))"
    by (auto simp add: generate_conclusion_def Let_def)
  show "length msgs < 2 \<or> (\<forall>m \<in> set msgs. \<not> substantive m) \<longrightarrow> generate_conclusion msgs = None"
  proof
    assume "length msgs < 2 \<or> (\<forall>m \<in> set msgs. \<not> substantive m)"
    then have "length msgs < 2 \<or> filter substantive (take 5 msgs) = []"
      by (auto simp: filter_empty_conv dest: in_set_takeD)
    then show "generate_conclusion msgs = None" unfolding 1 by simp
  qed
  show "\<forall>c. generate_conclusion msgs = Some c \<longrightarrow> length c \<le> 303"
    unfolding 1 using length_join_cap by (auto simp: Let_def split: if_splits)
qed

lemma conclusion_six: "generate_conclusion six_messages = Some (str ''a | b | c | d'')"
  by (simp add: generate_conclusion_def substantive_def strip_def is_space_def example_defs)

theorem conclusion_of_first_five_witness:
  "generate_conclusion six_messages = Some (str ''a | b | c | d'')
   \<and> length (str ''a | b | c | d'') \<le> 303"
  using conclusion_of_first_five [of six_messages] conclusion_six by blast

text \<open>
  The claim as stated takes the first five substantive messages of the whole group
  (\<open>claimed_conclusion\<close>).  For a group of a placeholder followed by five text messages
  the code yields four pieces, the claim five.
\<close>

theorem conclusion_not_first_five_substantive:
  "generate_conclusion six_messages = Some (str ''a | b | c | d'')
   \<and> claimed_conclusion six_messages = Some (str ''a | b | c | d | e'')
   \<and> generate_conclusion six_messages \<noteq> claimed_conclusion six_messages"
  by (simp add: generate_conclusion_def claimed_conclusion_def substantive_def strip_def
      is_space_def example_defs)

section \<open>C9: running the reply-chain linker twice\<close>

lemma group_relations_ids:
  "(r, q) \<in> set (group_relations env grp) \<Longrightarrow>
     r \<in> set (map msg_id grp) \<and> q \<in> set (map msg_id grp)"
  by (auto simp: group_relations_def List.map_filter_def split: option.splits if_splits)

lemma extract_reply_relations_ids:
  "(r, q) \<in> set (extract_reply_relations env groups) \<Longrightarrow>
     \<exists>i < length groups. r \<in> set (map msg_id (groups ! i)) \<and> q \<in> set (map msg_id (groups ! i))"
  unfolding extract_reply_relations_def
  using group_relations_ids by (fastforce simp: in_set_conv_nth)

lemma nth_subset_concat: "i < length xss \<Longrightarrow> set (xss ! i) \<subseteq> set (concat xss)"
  using nth_mem by fastforce

lemma distinct_concat_disjoint:
  "distinct (concat xss) \<Longrightarrow> i < length xss \<Longrightarrow> j < length xss \<Longrightarrow> i \<noteq> j \<Longrightarrow>
     set (xss ! i) \<inter> set (xss ! j) = {}"
proof (induction xss arbitrary: i j)
  case Nil
  then show ?case by simp
next
  case (Cons xs xss)
  from Cons.prems(1) have d: "distinct (concat xss)" "set xs \<inter> set (concat xss) = {}"
    by auto
  show ?case
  proof (cases i)
    case 0
    then obtain j' where j: "j = Suc j'" using Cons.prems(4) by (cases j) auto
    then have "set (xss ! j') \<subseteq> set (concat xss)"
      using Cons.prems(3) by (intro nth_subset_concat) simp
    then show ?thesis using 0 j d(2) by auto
  next
    case (Suc i')
    show ?thesis
    proof (cases j)
      case 0
      have "set (xss ! i') \<subseteq> set (concat xss)"
        using Cons.prems(2) Suc by (intro nth_subset_concat) simp
      then show ?thesis using 0 Suc d(2) by auto
    next
      case (Suc j')
      then show ?thesis
        using Cons.IH [OF d(1), of i' j'] Cons.prems \<open>i = Suc i'\<close> by simp
    qed
  qed
qed

lemma same_group_relation:
  assumes dist: "distinct (map msg_id (concat groups))"
    and rel: "(r, q) \<in> set (extract_reply_relations env groups)"
    and a: "build_msg_to_group groups r = Some a"
    and b: "build_msg_to_group groups q = Some b"
  shows "a = b \<and> a < length groups"
proof -
  let ?ids = "map (map msg_id) groups"
  have d: "distinct (concat ?ids)" using dist by (simp add: map_concat)
  from extract_reply_relations_ids [OF rel]
  obtain i where i: "i < length groups" "r \<in> set (?ids ! i)" "q \<in> set (?ids ! i)" by auto
  from build_msg_to_group_member [OF a] have a': "a < length groups" "r \<in> set (?ids ! a)" by auto
  from build_msg_to_group_member [OF b] have b': "b < length groups" "q \<in> set (?ids ! b)" by auto
  have "a = i"
    using distinct_concat_disjoint [OF d, of a i] a' i by auto
  moreover have "b = i"
    using distinct_concat_disjoint [OF d, of b i] b' i by auto
  ultimately show ?thesis using i(1) by simp
qed

lemma find_uf_root: "x < length parent \<Longrightarrow> parent ! x = x \<Longrightarrow> find_uf parent x = Some (Inr (parent, x))"
  by (subst find_uf.simps) simp

lemma union_uf_same: "x < n \<Longrightarrow> union_uf [0..<n] x x = Some (Inr [0..<n])"
  by (simp add: union_uf_def find_uf_root)

lemma union_relations_trivial:
  assumes "\<forall>(r, q) \<in> set rels. \<forall>a b. m r = Some a \<and> m q = Some b \<longrightarrow> a = b \<and> a < n"
  shows "union_relations m rels [0..<n] = Some (Inr [0..<n])"
  using assms
proof (induction rels)
  case Nil
  then show ?case by simp
next
  case (Cons rel rels)
  obtain r q where rel: "rel = (r, q)" by (cases rel)
  show ?case
  proof (cases "\<exists>a b. m r = Some a \<and> m q = Some b")
    case True
    then obtain a b where ab: "m r = Some a" "m q = Some b" by blast
    with Cons.prems rel have "a = b" "a < n" by auto
    then show ?thesis using Cons rel ab by (simp add: union_uf_same)
  next
    case False
    then have "union_relations m (rel # rels) [0..<n] = union_relations m rels [0..<n]"
      using rel by (auto split: option.splits)
    then show ?thesis using Cons by simp
  qed
qed

lemma dict_extend_new: "rt \<notin> fst ` set d \<Longrightarrow> dict_extend rt grp d = d @ [(rt, grp)]"
  by (induction d) auto

lemma collect_roots_identity:
  assumes "k + length gs \<le> n" "\<forall>p \<in> set d. fst p < k"
  shows "collect_roots [0..<n] (enumerate k gs) d = Some (Inr (d @ enumerate k gs))"
  using assms
proof (induction gs arbitrary: k d)
  case Nil
  then show ?case by simp
next
  case (Cons g gs)
  have k: "k < n" using Cons.prems(1) by simp
  then have f: "find_uf [0..<n] k = Some (Inr ([0..<n], k))"
    by (simp add: find_uf_root)
  have "k \<notin> fst ` set d" using Cons.prems(2) by auto
  then have e: "dict_extend k g d = d @ [(k, g)]" by (rule dict_extend_new)
  have "collect_roots [0..<n] (enumerate (Suc k) gs) (d @ [(k, g)])
      = Some (Inr ((d @ [(k, g)]) @ enumerate (Suc k) gs))"
    using Cons.prems by (intro Cons.IH) auto
  then show ?case using f e by simp
qed

lemma sorted_enumerate:
  "map (\<lambda>(rt, msgs). sort_key timestamp msgs) (enumerate k gs) = map (sort_key timestamp) gs"
  by (induction gs arbitrary: k) auto

lemma merge_by_reply_relation_distinct:
  assumes "distinct (map msg_id (concat groups))"
  shows "merge_by_reply_relation env groups =
     Some (Inr (if extract_reply_relations env groups = [] then groups
                else map (sort_key timestamp) groups))"
proof -
  have "union_relations (build_msg_to_group groups) (extract_reply_relations env groups)
      [0..<length groups] = Some (Inr [0..<length groups])"
    using same_group_relation [OF assms] by (intro union_relations_trivial) blast
  moreover have "collect_roots [0..<length groups] (enumerate 0 groups) []
      = Some (Inr ([] @ enumerate 0 groups))"
    by (rule collect_roots_identity) auto
  ultimately show ?thesis
    by (simp add: merge_by_reply_relation_def sorted_enumerate)
qed

text \<open>
  Claim C9, as amended.  On a group list whose message ids are pairwise distinct the linker
  returns a list \<open>out\<close> on which it returns \<open>out\<close> again, and the id sets of the groups
  of \<open>out\<close> are those of the input, group by group (with distinct ids a quotation is only
  recorded inside one group, so nothing is merged in either pass).
\<close>

theorem reply_linker_idempotent:
  assumes "distinct (map msg_id (concat groups))"
  shows "\<exists>out. merge_by_reply_relation env groups = Some (Inr out)
           \<and> merge_by_reply_relation env out = Some (Inr out)
           \<and> map (\<lambda>g. set (map msg_id g)) out = map (\<lambda>g. set (map msg_id g)) groups"
proof -
  let ?out = "if extract_reply_relations env groups = [] then groups
              else map (sort_key timestamp) groups"
  have 1: "merge_by_reply_relation env groups = Some (Inr ?out)"
    by (rule merge_by_reply_relation_distinct [OF assms])
  have "mset (concat ?out) = mset (concat groups)"
    using merge_by_reply_relation_total [of env groups] 1 by simp
  then have "mset (map msg_id (concat ?out)) = mset (map msg_id (concat groups))"
    by (metis mset_map)
  then have "distinct (map msg_id (concat ?out))"
    using assms by (metis mset_eq_imp_distinct_iff)
  from merge_by_reply_relation_distinct [OF this]
  have 2: "merge_by_reply_relation env ?out =
      Some (Inr (if extract_reply_relations env ?out = [] then ?out
                 else map (sort_key timestamp) ?out))" .
  have "map (sort_key timestamp) ?out = ?out" if "extract_reply_relations env groups \<noteq> []"
    using that by (simp add: sort_key_id_if_sorted)
  moreover have "extract_reply_relations env ?out = []" if "extract_reply_relations env groups = []"
    using that by simp
  ultimately have "merge_by_reply_relation env ?out = Some (Inr ?out)"
    using 2 by (cases "extract_reply_relations env groups = []") auto
  moreover have "map (\<lambda>g. set (map msg_id g)) ?out = map (\<lambda>g. set (map msg_id g)) groups"
    by simp
  ultimately show ?thesis using 1 by blast
qed

theorem reply_linker_idempotent_witness:
  "extract_reply_relations example_env [[msgD, msgA], [msgP], [msgQ, msgR]] \<noteq> []
   \<and> (\<exists>out. merge_by_reply_relation example_env [[msgD, msgA], [msgP], [msgQ, msgR]] = Some (Inr out)
          \<and> merge_by_reply_relation example_env out = Some (Inr out)
          \<and> length out = 3)"
proof -
  have "distinct (map msg_id (concat [[msgD, msgA], [msgP], [msgQ, msgR]]))"
    by (simp add: example_defs)
  from reply_linker_idempotent [OF this, of example_env]
  obtain out where out: "merge_by_reply_relation example_env [[msgD, msgA], [msgP], [msgQ, msgR]] = Some (Inr out)"
    "merge_by_reply_relation example_env out = Some (Inr out)"
    "map (\<lambda>g. set (map msg_id g)) out = map (\<lambda>g. set (map msg_id g)) [[msgD, msgA], [msgP], [msgQ, msgR]]"
    by blast
  from out(3) have "length out = 3" by (metis length_map length_Cons list.size(3) numeral_3_eq_3)
  moreover have "extract_reply_relations example_env [[msgD, msgA], [msgP], [msgQ, msgR]] \<noteq> []"
    by (simp add: extract_reply_relations_def group_relations_def List.map_filter_def
        quoted_D quoted_A) (simp add: example_defs)
  ultimately show ?thesis using out(1,2) by blast
qed

text \<open>
  The claim as stated, for every group list, fails when an id occurs in more than one
  group: \<open>msg_to_group\<close> keeps the last group of such an id.  For the four messages below
  (three of them with the same id) the first pass merges the first and third time-window
  groups, and a second pass on that output then merges the two groups that are left.
\<close>

lemma dup_simps:
  "timestamp dupA = 0" "timestamp dupD = 0" "timestamp dupE = 1000" "timestamp dupF = 2000"
  "msg_id dupA = str ''svrid_1001''" "msg_id dupD = str ''svrid_1002''"
  "msg_id dupE = str ''svrid_1002''" "msg_id dupF = str ''svrid_1002''"
  by (simp_all add: dupA_def dupD_def dupE_def dupF_def mk_msg_def)

lemma dup_quoted:
  "extract_quoted_msg_id example_env dupA = None"
  "extract_quoted_msg_id example_env dupD = Some (str ''svrid_1001'')"
  "extract_quoted_msg_id example_env dupE = None"
  "extract_quoted_msg_id example_env dupF = None"
  by (simp_all add: extract_quoted_msg_id_def dupA_def dupD_def dupE_def dupF_def example_defs)

lemma dup_stage1:
  "group_by_time_window default_config [dupA, dupD, dupE, dupF] = [[dupA, dupD], [dupE], [dupF]]"
  by (simp add: group_by_time_window_def get_adaptive_window_def density_def cfg_simps dup_simps)

lemma ids_differ: "str ''svrid_1001'' \<noteq> str ''svrid_1002''" "str ''svrid_1001'' \<noteq> []"
  by (simp_all add: str_def)

lemma dup_pass1:
  "merge_by_reply_relation example_env [[dupA, dupD], [dupE], [dupF]]
     = Some (Inr [[dupA, dupD, dupF], [dupE]])"
  by (simp add: merge_by_reply_relation_def extract_reply_relations_def group_relations_def
      List.map_filter_def dup_quoted dup_simps ids_differ build_msg_to_group_def enumerate_eq_zip
      upt_rec union_uf_def find_uf.simps bind_res_def)

lemma dup_pass2:
  "merge_by_reply_relation example_env [[dupA, dupD, dupF], [dupE]]
     = Some (Inr [[dupA, dupD, dupE, dupF]])"
  by (simp add: merge_by_reply_relation_def extract_reply_relations_def group_relations_def
      List.map_filter_def dup_quoted dup_simps ids_differ build_msg_to_group_def enumerate_eq_zip
      upt_rec union_uf_def find_uf.simps bind_res_def)

theorem reply_linker_not_idempotent:
  "group_by_time_window default_config [dupA, dupD, dupE, dupF] = [[dupA, dupD], [dupE], [dupF]]
   \<and> merge_by_reply_relation example_env [[dupA, dupD], [dupE], [dupF]]
       = Some (Inr [[dupA, dupD, dupF], [dupE]])
   \<and> merge_by_reply_relation example_env [[dupA, dupD, dupF], [dupE]]
       = Some (Inr [[dupA, dupD, dupE, dupF]])"
  using dup_stage1 dup_pass1 dup_pass2 by blast

section \<open>C10: every topic is internally consistent\<close>



text \<open>A sender id that holds a lone surrogate makes the whole run raise.\<close>

lemma run_surrogate_raises:
  "run example_env default_config [msgS, msgV] = Some (Inl UnicodeEncodeError)"
proof -
  have s: "timestamp msgS = 0" "xml_content msgS = None" "sender_id msgS = [55296]"
    by (simp_all add: msgS_def msgU_def mk_msg_def)
  have "cluster example_env default_config [msgS, msgV] = Some (Inr [[msgS, msgV]])"
    by (simp add: cluster_def group_by_time_window_def get_adaptive_window_def cfg_simps uv_simps s
        merge_by_reply_relation_def extract_reply_relations_def group_relations_def
        List.map_filter_def extract_quoted_msg_id_def merge_by_semantic_similarity_def)
  moreover have "create_topic_from_group example_env [msgS, msgV] = Inl UnicodeEncodeError"
    by (simp add: create_topic_from_group_def generate_topic_id_cases s encodable_def is_surrogate_def)
  ultimately show ?thesis
    by (simp add: run_def s uv_simps quality_filter_def cfg_simps)
qed

section \<open>C6: the topics do not depend on the run\<close>

lemma listing_irrelevant_quoted [simp]:
  "extract_quoted_msg_id (env \<lparr>set_listing := f\<rparr>) = extract_quoted_msg_id env"
  by (rule ext) (simp add: extract_quoted_msg_id_def cong: option.case_cong if_cong)

lemma listing_irrelevant_group_relations [simp]:
  "group_relations (env \<lparr>set_listing := f\<rparr>) = group_relations env"
  by (rule ext) (simp add: group_relations_def)

lemma listing_irrelevant_relations [simp]:
  "extract_reply_relations (env \<lparr>set_listing := f\<rparr>) = extract_reply_relations env"
  by (rule ext) (simp add: extract_reply_relations_def)

lemma listing_irrelevant_reply [simp]:
  "merge_by_reply_relation (env \<lparr>set_listing := f\<rparr>) = merge_by_reply_relation env"
  by (rule ext) (simp add: merge_by_reply_relation_def)

lemma listing_irrelevant_similarities [simp]:
  "compute_semantic_similarities (env \<lparr>set_listing := f\<rparr>) = compute_semantic_similarities env"
  by (rule ext) (simp add: compute_semantic_similarities_def Let_def cong: option.case_cong if_cong)

lemma listing_irrelevant_semantic [simp]:
  "merge_by_semantic_similarity (env \<lparr>set_listing := f\<rparr>) = merge_by_semantic_similarity env"
  by (rule ext)+ (simp add: merge_by_semantic_similarity_def)

lemma listing_irrelevant_cluster [simp]:
  "cluster (env \<lparr>set_listing := f\<rparr>) = cluster env"
  by (rule ext)+ (simp add: cluster_def Let_def)

lemma listing_irrelevant_topic_id [simp]:
  "generate_topic_id (env \<lparr>set_listing := f\<rparr>) = generate_topic_id env"
  by (rule ext) (simp add: generate_topic_id_def)

lemma observed_create_topic:
  "map_sum id observed (create_topic_from_group (env \<lparr>set_listing := f\<rparr>) g)
     = map_sum id observed (create_topic_from_group env g)"
  by (cases g) (simp_all add: create_topic_from_group_def observed_def split: sum.splits)

lemma observed_create_topics:
  "map_sum id (map observed) (create_topics (env \<lparr>set_listing := f\<rparr>) groups)
     = map_sum id (map observed) (create_topics env groups)"
proof (induction groups)
  case Nil
  then show ?case by simp
next
  case (Cons g groups)
  show ?case
  proof (cases "create_topic_from_group env g")
    case (Inl e)
    then have "\<exists>e'. create_topic_from_group (env \<lparr>set_listing := f\<rparr>) g = Inl e'"
      using observed_create_topic [where env = env and f = f and g = g]
      by (cases "create_topic_from_group (env \<lparr>set_listing := f\<rparr>) g") auto
    then show ?thesis using Inl observed_create_topic [where env = env and f = f and g = g] by auto
  next
    case (Inr t)
    then obtain t' where t': "create_topic_from_group (env \<lparr>set_listing := f\<rparr>) g = Inr t'"
      "observed t' = observed t"
      using observed_create_topic [where env = env and f = f and g = g]
      by (cases "create_topic_from_group (env \<lparr>set_listing := f\<rparr>) g") auto
    show ?thesis
    proof (cases "create_topics env groups")
      case (Inl e)
      then obtain e' where "create_topics (env \<lparr>set_listing := f\<rparr>) groups = Inl e'" "e' = e"
        using Cons.IH by (cases "create_topics (env \<lparr>set_listing := f\<rparr>) groups") auto
      then show ?thesis using Inl Inr t' by simp
    next
      case r: (Inr ts)
      then obtain ts' where "create_topics (env \<lparr>set_listing := f\<rparr>) groups = Inr ts'"
        "map observed ts' = map observed ts"
        using Cons.IH by (cases "create_topics (env \<lparr>set_listing := f\<rparr>) groups") auto
      then show ?thesis using r Inr t' by simp
    qed
  qed
qed

lemma observe_run:
  "observe (run (env \<lparr>set_listing := f\<rparr>) cfg msgs) = observe (run env cfg msgs)"
proof (cases "sort_key timestamp msgs = []")
  case True
  then show ?thesis by (simp add: run_def)
next
  case False
  show ?thesis
  proof (cases "cluster env cfg (sort_key timestamp msgs)")
    case None
    then show ?thesis using False by (simp add: run_def bind_res_def)
  next
    case (Some r)
    then show ?thesis
      using False observed_create_topics [where env = env and f = f]
      by (cases r) (simp_all add: run_def bind_res_def observe_def)
  qed
qed

text \<open>
  Claim C6.  The only ingredient of \<open>run\<close> that can change from one run to the next on the
  same input and configuration is the order in which \<open>list(set(...))\<close> lists the
  participants (it follows the interpreter's string hashing).  Whatever that order, the
  outcome is the same exception or topic lists with the same topic ids, titles and member
  ids.  \<open>run\<close> always ends, and in every topic list it returns each topic id is what
  \<open>_generate_topic_id\<close> gives for the first message of the topic's group, a message of the
  input: the first 12 characters of the digest of \<open>timestamp_senderid_msgid\<close> (exactly 12
  characters for a digest of 32).  It returns topics whenever the sender ids and message
  ids of the input can be encoded.
\<close>

theorem deterministic_topics:
  "observe (run (env \<lparr>set_listing := f\<rparr>) cfg msgs) = observe (run (env \<lparr>set_listing := f'\<rparr>) cfg msgs)
   \<and> run env cfg msgs \<noteq> None
   \<and> (\<forall>topics. run env cfg msgs = Some (Inr topics) \<longrightarrow>
        (\<forall>t \<in> set topics. \<exists>m \<in> set msgs.
              generate_topic_id env m = Inr (topic_id t)
              \<and> topic_id t = take 12 (md5_hex env (str_of_int (timestamp m) @ str ''_''
                                       @ sender_id m @ str ''_'' @ msg_id m))
              \<and> length (topic_id t) \<le> 12
              \<and> ((\<forall>s. length (md5_hex env s) = 32) \<longrightarrow> length (topic_id t) = 12)
              \<and> take 1 (message_ids t) = [msg_id m]
              \<and> start_time t = Some (timestamp m)
              \<and> initiator t = Some (sender_name m)))
   \<and> ((\<forall>m \<in> set msgs. encodable (sender_id m) \<and> encodable (msg_id m))
        \<longrightarrow> (\<exists>topics. run env cfg msgs = Some (Inr topics)))"
proof (intro conjI)
  show "observe (run (env \<lparr>set_listing := f\<rparr>) cfg msgs)
      = observe (run (env \<lparr>set_listing := f'\<rparr>) cfg msgs)"
    by (simp add: observe_run)
  show "run env cfg msgs \<noteq> None"
    using run_returns_or_raises [of env cfg msgs] by blast
  show "(\<forall>m \<in> set msgs. encodable (sender_id m) \<and> encodable (msg_id m))
        \<longrightarrow> (\<exists>topics. run env cfg msgs = Some (Inr topics))"
    using run_returns [of msgs env cfg] by blast
  have "\<exists>m \<in> set msgs.
          generate_topic_id env m = Inr (topic_id t)
          \<and> topic_id t = take 12 (md5_hex env (str_of_int (timestamp m) @ str ''_''
                                   @ sender_id m @ str ''_'' @ msg_id m))
          \<and> length (topic_id t) \<le> 12
          \<and> ((\<forall>s. length (md5_hex env s) = 32) \<longrightarrow> length (topic_id t) = 12)
          \<and> take 1 (message_ids t) = [msg_id m]
          \<and> start_time t = Some (timestamp m)
          \<and> initiator t = Some (sender_name m)"
    if "run env cfg msgs = Some (Inr topics)" "t \<in> set topics" for topics t
  proof -
    from topics_of_run [OF that] obtain g where
      g: "g \<noteq> []" "set g \<subseteq> set msgs" "create_topic_from_group env g = Inr t"
      by blast
    note f = create_topic_fields [OF g(3)]
    from g(1) obtain m rest where m: "g = m # rest" by (cases g) auto
    then have "m \<in> set msgs" using g(2) by auto
    moreover have id: "generate_topic_id env m = Inr (topic_id t)" using f(2) m by simp
    moreover from id have tid: "topic_id t = take 12 (md5_hex env (str_of_int (timestamp m) @ str ''_''
                                   @ sender_id m @ str ''_'' @ msg_id m))"
      by (simp add: generate_topic_id_cases split: if_splits)
    moreover have "length (topic_id t) \<le> 12" unfolding tid by simp
    moreover have "(\<forall>s. length (md5_hex env s) = 32) \<longrightarrow> length (topic_id t) = 12"
      unfolding tid by simp
    moreover have "take 1 (message_ids t) = [msg_id m]" "start_time t = Some (timestamp m)"
      "initiator t = Some (sender_name m)"
      using f(3,6,7) m by simp_all
    ultimately show ?thesis by blast
  qed
  then show "\<forall>topics. run env cfg msgs = Some (Inr topics) \<longrightarrow>
        (\<forall>t \<in> set topics. \<exists>m \<in> set msgs.
              generate_topic_id env m = Inr (topic_id t)
              \<and> topic_id t = take 12 (md5_hex env (str_of_int (timestamp m) @ str ''_''
                                       @ sender_id m @ str ''_'' @ msg_id m))
              \<and> length (topic_id t) \<le> 12
              \<and> ((\<forall>s. length (md5_hex env s) = 32) \<longrightarrow> length (topic_id t) = 12)
              \<and> take 1 (message_ids t) = [msg_id m]
              \<and> start_time t = Some (timestamp m)
              \<and> initiator t = Some (sender_name m))"
    by blast
qed

theorem deterministic_topics_witness:
  "observe (run (example_env \<lparr>set_listing := remdups\<rparr>) default_config [msgU, msgV])
     = observe (run (example_env \<lparr>set_listing := rev\<rparr>) default_config [msgU, msgV])
   \<and> (\<exists>t. run (example_env \<lparr>set_listing := remdups\<rparr>) default_config [msgU, msgV] = Some (Inr [t]))
   \<and> map_option (map_sum id (map participants))
        (run (example_env \<lparr>set_listing := remdups\<rparr>) default_config [msgU, msgV])
     \<noteq> map_option (map_sum id (map participants))
        (run (example_env \<lparr>set_listing := rev\<rparr>) default_config [msgU, msgV])"
proof -
  have ids: "generate_topic_id (example_env \<lparr>set_listing := h\<rparr>) msgU
      = Inr (take 12 (str_of_int 0 @ str ''_'' @ str ''alice'' @ str ''_'' @ str ''u''))" for h
    by (simp add: generate_topic_id_cases uv_ids uv_simps example_env_def)
  have "map_option (map_sum id (map participants))
        (run (example_env \<lparr>set_listing := remdups\<rparr>) default_config [msgU, msgV])
     \<noteq> map_option (map_sum id (map participants))
        (run (example_env \<lparr>set_listing := rev\<rparr>) default_config [msgU, msgV])"
    unfolding run_UV
    by (simp add: create_topic_from_group_def ids uv_simps str_def
        del: listing_irrelevant_topic_id)
  moreover have "\<exists>t. run (example_env \<lparr>set_listing := remdups\<rparr>) default_config [msgU, msgV] = Some (Inr [t])"
    unfolding run_UV
    by (simp add: create_topic_from_group_def ids del: listing_irrelevant_topic_id)
  ultimately show ?thesis
    using deterministic_topics [where env = example_env and f = remdups and f' = rev
        and cfg = default_config and msgs = "[msgU, msgV]"]
    by blast
qed

section \<open>C3: the adaptive window\<close>

lemma py_int_of_int: "py_int (of_int k) = k"
  by (simp add: py_int_def)

lemma py_int_double: "py_int (of_int k * 2) = k * 2"
  using py_int_of_int [of "k * 2"] by simp

text \<open>
  Claim C3, as amended.  For a base window below \<open>2\<^sup>5\<^sup>1\<close> seconds in absolute value and a
  group whose time span is below \<open>2\<^sup>5\<^sup>2\<close> seconds, the adaptive window of the current group
  is the base window when adaptive windowing is disabled or the group has fewer than two
  messages; otherwise it is \<open>base_window * 0.5\<close> truncated to an integer if the density
  exceeds 2, the base window if the density is in \<open>(1, 2]\<close>, \<open>base_window * 1.5\<close> truncated
  to an integer if the density is in \<open>(1/2, 1]\<close>, and twice the base window otherwise.  The
  density is the exact quotient of the message count by the span in minutes, and the message
  count when the span is zero: the two roundings of the floating-point density never change
  the case.  Equivalently, outside one-message groups the window is the integer part of the
  window of the four-case rule.
\<close>

theorem adaptive_window_cases:
  assumes tw: "\<bar>time_window cfg\<bar> < 2 ^ 51"
    and sp: "timestamp (last g) - timestamp (hd g) < 2 ^ 52"
  shows "get_adaptive_window cfg g =
     (if \<not> enable_adaptive_window cfg \<or> length g < 2 then time_window cfg
      else let d = exact_density g; base = real_of_int (time_window cfg)
           in if d > 2 then py_int (base * (1 / 2))
              else if d > 1 then time_window cfg
              else if d > 1 / 2 then py_int (base * (3 / 2))
              else time_window cfg * 2)
   \<and> get_adaptive_window cfg g =
     (if enable_adaptive_window cfg \<and> length g < 2 then time_window cfg
      else py_int (claimed_window cfg g))"
proof -
  have 1: "get_adaptive_window cfg g =
     (if \<not> enable_adaptive_window cfg \<or> length g < 2 then time_window cfg
      else let d = exact_density g; base = real_of_int (time_window cfg)
           in if d > 2 then py_int (base * (1 / 2))
              else if d > 1 then time_window cfg
              else if d > 1 / 2 then py_int (base * (3 / 2))
              else time_window cfg * 2)"
  proof (cases "\<not> enable_adaptive_window cfg \<or> length g < 2")
    case True
    then show ?thesis by (simp add: get_adaptive_window_def)
  next
    case False
    then have n: "0 < length g" by (cases g) simp_all
    have tw': "\<bar>time_window cfg\<bar> < 2 ^ 53" using tw by simp
    show ?thesis
      using False
      by (simp only: get_adaptive_window_def Let_def if_False density_thresholds [OF n sp]
          fl_half_window [OF tw'] fl_three_halves_window [OF tw])
  qed
  have 2: "get_adaptive_window cfg g =
     (if enable_adaptive_window cfg \<and> length g < 2 then time_window cfg
      else py_int (claimed_window cfg g))"
    unfolding 1 by (simp add: claimed_window_def Let_def py_int_of_int py_int_double)
  from 1 2 show ?thesis by (rule conjI)
qed

text \<open>
  The theorem at the default configuration: two messages ten seconds apart have density 12
  and window 150, two messages 1000 seconds apart have density 3/25 and window 600.
\<close>

theorem adaptive_window_cases_witness:
  "get_adaptive_window default_config [msgU, msgV] = 150
   \<and> exact_density [msgU, msgV] = 12
   \<and> get_adaptive_window default_config [msgP, msgQ] = 600
   \<and> exact_density [msgP, msgQ] = 3 / 25"
  using adaptive_window_cases [of default_config "[msgU, msgV]"]
    adaptive_window_cases [of default_config "[msgP, msgQ]"]
  by (simp add: cfg_simps uv_simps ts_simps exact_density_def py_int_def)

text \<open>
  The four-case rule alone does not give the window of the code.  A group of one message
  has span zero and density 1, so the rule gives \<open>300 * 1.5 = 450\<close>, but the code returns
  the base window 300 for a group of fewer than two messages; two messages 400 seconds apart
  are therefore split by the grouper although their gap is within the window of the rule.
  And the scaled window is converted with \<open>int\<close>: a base window of 301 and a density above
  2 give 150, not 150.5.
\<close>

theorem adaptive_window_not_claimed:
  "get_adaptive_window default_config [msgA] = 300
   \<and> claimed_window default_config [msgA] = 450
   \<and> get_adaptive_window (default_config \<lparr>time_window := 301\<rparr>) [msgU, msgV] = 150
   \<and> claimed_window (default_config \<lparr>time_window := 301\<rparr>) [msgU, msgV] = 301 / 2
   \<and> group_by_time_window default_config [msgU, msgW] = [[msgU], [msgW]]
   \<and> of_int (timestamp msgW - timestamp msgU) \<le> claimed_window default_config [msgU]"
proof (intro conjI)
  show "group_by_time_window default_config [msgU, msgW] = [[msgU], [msgW]]"
    by (simp add: group_by_time_window_def get_adaptive_window_def cfg_simps uv_simps msgW_def
        mk_msg_def)
  show "of_int (timestamp msgW - timestamp msgU) \<le> claimed_window default_config [msgU]"
    by (simp add: claimed_window_def exact_density_def cfg_simps uv_simps msgW_def mk_msg_def)
  show "get_adaptive_window default_config [msgA] = 300"
    by (simp add: get_adaptive_window_def cfg_simps)
  show "claimed_window default_config [msgA] = 450"
    by (simp add: claimed_window_def exact_density_def cfg_simps)
  have d: "exact_density [msgU, msgV] = 12" by (simp add: exact_density_def uv_simps)
  have "2 < density [msgU, msgV]"
    using density_thresholds(1) [of "[msgU, msgV]"] by (simp add: d uv_simps)
  then have "get_adaptive_window (default_config \<lparr>time_window := 301\<rparr>) [msgU, msgV]
      = py_int (fl (fl (of_int 301) * (1 / 2)))"
    by (simp add: get_adaptive_window_def cfg_simps)
  also have "\<dots> = py_int (of_int 301 * (1 / 2))"
  proof -
    have "fl (fl (of_int 301) * (1 / 2)) = of_int 301 * (1 / 2)"
      by (rule fl_half_window) simp
    then show ?thesis by (simp only:)
  qed
  also have "\<dots> = 150" by (simp add: py_int_def)
  finally show "get_adaptive_window (default_config \<lparr>time_window := 301\<rparr>) [msgU, msgV] = 150" .
  show "claimed_window (default_config \<lparr>time_window := 301\<rparr>) [msgU, msgV] = 301 / 2"
    by (simp add: claimed_window_def d cfg_simps)
qed

end
